theory Spec2Isabelle
  imports Main "HOL-Library.Word"
begin

section \<open>The regex engine of cre.c and kre.c\<close>

text \<open>
  The repository holds one engine twice: \<^verbatim>\<open>kre.c\<close> is \<^verbatim>\<open>cre.c\<close> with the identifier
  prefix changed, line for line. The model below follows \<^verbatim>\<open>cre.c\<close> and keeps its names;
  every statement holds for \<^verbatim>\<open>kre.c\<close> by renaming.

  Conventions of the embedding.
  \<^item> A C \<^verbatim>\<open>int\<close> is an \<^typ>\<open>int\<close>; no claim treated here depends on its overflow.
  \<^item> A \<^verbatim>\<open>char\<close> is an \<^typ>\<open>8 word\<close>. Where the source uses a \<^verbatim>\<open>char\<close> as an array
    index it is promoted to \<^verbatim>\<open>int\<close>; plain \<^verbatim>\<open>char\<close> is taken to be signed, as on the
    x86 ABIs, so the promoted value is \<^term>\<open>sint c\<close>.
  \<^item> An array reached through a pointer is the list of its cells. A read or write
    outside the list is the fault \<open>OutOfBounds\<close>, a failed \<^verbatim>\<open>assert\<close> is the fault
    \<open>AssertFailed\<close>; a call that does not return is \<open>None\<close>.
  \<^item> The frame of \<^verbatim>\<open>cre_iter_reset\<close> is about pointers and allocation, which lists
    of cells do not show; for it the iterator is modelled a second time, on a heap
    of blocks, and the two models are related by reading the heap back.
  \<^item> The source does not compile as it stands. Where it names something that does not
    exist the model takes the evident referent and says so at the definition.
\<close>

subsection \<open>Data\<close>

datatype cre_kind = cre_EPS | cre_SET

text \<open>The field \<^verbatim>\<open>set\<close> of the source is \<open>set_tab\<close> here, the field \<^verbatim>\<open>in\<close> is \<open>in_st\<close>.\<close>

record cre_node =
  kind :: cre_kind
  u :: int
  v :: int
  set_tab :: "bool list"

record cre_pat =
  nfa_len :: int
  nfa :: "cre_node list"
  nfa_start :: int
  src :: string

record cre_sim =
  pat :: cre_pat
  in_st :: "bool list"
  lastin :: "bool list"

record cre_iter_path =
  sim :: cre_sim
  Ms :: int
  Me :: int
  Gs :: "int list"
  Ge :: "int list"

text \<open>
  The typedef of \<^verbatim>\<open>cre_iter\<close> declares no pattern field, yet \<^verbatim>\<open>cre_iter_init\<close> stores
  \<^verbatim>\<open>iter->pat\<close> and \<^verbatim>\<open>cre_iter_feedc\<close> reads it: the field is \<open>it_pat\<close>.
\<close>

record cre_iter =
  it_pat :: cre_pat
  paths_len :: int
  paths_cap :: int
  paths :: "cre_iter_path list"
  buf_len :: int
  buf_cap :: int
  buf :: "8 word list"

datatype cre_fault = AssertFailed | OutOfBounds

type_synonym 'a outcome = "(cre_fault + 'a) option"

definition and_then :: "'a outcome \<Rightarrow> ('a \<Rightarrow> 'b outcome) \<Rightarrow> 'b outcome" where
  "and_then m f = (case m of None \<Rightarrow> None | Some (Inl e) \<Rightarrow> Some (Inl e) | Some (Inr x) \<Rightarrow> f x)"

subsection \<open>cre\_pat\_init\<close>

text \<open>
  \<^verbatim>\<open>cre_parse_\<close> is declared in the source and defined nowhere, so it is a parameter:
  any function from the pattern under construction and the source text to the
  pattern with its nodes and the start index. The returned \<^verbatim>\<open>char*\<close> is
  \<open>None\<close> for \<^verbatim>\<open>NULL\<close> and \<open>Some msg\<close> for an error string.
\<close>

definition cre_pat_init ::
  "(cre_pat \<Rightarrow> string \<Rightarrow> cre_pat \<times> int) \<Rightarrow> cre_pat \<Rightarrow> string \<Rightarrow> cre_pat \<times> string option" where
  "cre_pat_init cre_parse p s =
     (let p1 = p\<lparr>src := s\<rparr>;
          p2 = p1\<lparr>nfa_len := 0, nfa := []\<rparr>;
          (p3, start) = cre_parse p2 s;
          p4 = p3\<lparr>nfa_start := start\<rparr>
      in (p4, None))"

subsection \<open>cre\_sim\<close>

text \<open>The two \<^verbatim>\<open>for\<close> loops that clear a buffer, cell by cell.\<close>

primrec clear_cells :: "bool list \<Rightarrow> nat list \<Rightarrow> cre_fault + bool list" where
  "clear_cells xs [] = Inr xs"
| "clear_cells xs (i # is) =
     (if i < length xs then clear_cells (xs[i := False]) is else Inl OutOfBounds)"

text \<open>
  \<^verbatim>\<open>cre_sim_reset\<close>: its loop bound is written \<^verbatim>\<open>pat->nfa_len\<close> with no \<^verbatim>\<open>pat\<close> in scope;
  the simulator's pattern is meant. Each round clears \<^verbatim>\<open>lastin[i]\<close>, then \<^verbatim>\<open>in[i]\<close>.
  Afterwards the start index is marked. The function returns nothing.
\<close>

primrec reset_cells :: "bool list \<Rightarrow> bool list \<Rightarrow> nat list \<Rightarrow> cre_fault + (bool list \<times> bool list)" where
  "reset_cells a b [] = Inr (a, b)"
| "reset_cells a b (i # is) =
     (if i < length b \<and> i < length a then reset_cells (a[i := False]) (b[i := False]) is
      else Inl OutOfBounds)"

definition cre_sim_reset :: "cre_sim \<Rightarrow> cre_fault + cre_sim" where
  "cre_sim_reset s =
     (case reset_cells (in_st s) (lastin s) [0..<nat (nfa_len (pat s))] of
        Inl e \<Rightarrow> Inl e
      | Inr (a, b) \<Rightarrow>
          if 0 \<le> nfa_start (pat s) \<and> nat (nfa_start (pat s)) < length a
          then Inr (s\<lparr>in_st := a[nat (nfa_start (pat s)) := True], lastin := b\<rparr>)
          else Inl OutOfBounds)"

text \<open>
  \<^verbatim>\<open>cre_sim_init\<close> allocates both buffers with \<^verbatim>\<open>malloc\<close> and resets. The contents of
  fresh memory are indeterminate; \<open>malloc_bools\<close> fixes them as \<open>False\<close>, and
  \<open>reset_ignores_contents\<close> below shows that the reset result does not depend on
  that choice. The source passes an undeclared \<^verbatim>\<open>iter\<close> to the reset; the simulator
  being initialised is meant.
\<close>

definition malloc_bools :: "int \<Rightarrow> bool list" where
  "malloc_bools n = replicate (nat n) False"

definition cre_sim_init :: "cre_pat \<Rightarrow> cre_fault + cre_sim" where
  "cre_sim_init P =
     cre_sim_reset \<lparr>pat = P, in_st = malloc_bools (nfa_len P), lastin = malloc_bools (nfa_len P)\<rparr>"

text \<open>
  \<^verbatim>\<open>cre_sim_add_\<close> (the trailing underscore is dropped). The only state it touches is
  the buffer \<^verbatim>\<open>sim->in\<close>, which is passed in and returned with the result. The
  recursion has no bound, so the function is partial: \<open>None\<close> is a call that never
  returns.
\<close>

partial_function (option) cre_sim_add ::
  "cre_pat \<Rightarrow> bool list \<Rightarrow> int \<Rightarrow> (bool list \<times> bool) outcome" where
  "cre_sim_add P inb i =
     (if i = -1 then Some (Inr (inb, False))
      else if i = -2 then Some (Inr (inb, True))
      else if \<not> 0 \<le> i then Some (Inl AssertFailed)
      else if \<not> i < nfa_len P then Some (Inl AssertFailed)
      else if \<not> nat i < length (nfa P) then Some (Inl OutOfBounds)
      else if kind (nfa P ! nat i) = cre_EPS then
        Option.bind (cre_sim_add P inb (u (nfa P ! nat i))) (\<lambda>r1.
          case r1 of Inl e \<Rightarrow> Some (Inl e)
          | Inr (in1, b1) \<Rightarrow>
              Option.bind (cre_sim_add P in1 (v (nfa P ! nat i))) (\<lambda>r2.
                case r2 of Inl e \<Rightarrow> Some (Inl e)
                | Inr (in2, b2) \<Rightarrow> Some (Inr (in2, b1 \<or> b2))))
      else if \<not> nat i < length inb then Some (Inl OutOfBounds)
      else Some (Inr (inb[nat i := True], False)))"

text \<open>\<^verbatim>\<open>valid = n->set[c]\<close> for a set node, \<^verbatim>\<open>false\<close> otherwise.\<close>

definition node_valid :: "cre_node \<Rightarrow> 8 word \<Rightarrow> cre_fault + bool" where
  "node_valid n c =
     (if kind n = cre_SET then
        (if 0 \<le> sint c \<and> nat (sint c) < length (set_tab n)
         then Inr (set_tab n ! nat (sint c)) else Inl OutOfBounds)
      else Inr False)"

text \<open>
  The second loop of \<^verbatim>\<open>cre_sim_feedc\<close>, over the indices still to visit; \<open>prev\<close> is the
  buffer \<^verbatim>\<open>lastin\<close> (read only), the pair is \<^verbatim>\<open>in\<close> and \<^verbatim>\<open>res\<close>.
\<close>

primrec feed_nodes ::
  "cre_pat \<Rightarrow> bool list \<Rightarrow> 8 word \<Rightarrow> nat list \<Rightarrow> bool list \<times> bool \<Rightarrow> (bool list \<times> bool) outcome" where
  "feed_nodes P prev c [] st = Some (Inr st)"
| "feed_nodes P prev c (i # is) st =
     (if \<not> i < length prev then Some (Inl OutOfBounds)
      else if prev ! i then
        (if \<not> i < length (nfa P) then Some (Inl OutOfBounds)
         else case node_valid (nfa P ! i) c of
           Inl e \<Rightarrow> Some (Inl e)
         | Inr valid \<Rightarrow>
             if valid then
               and_then (cre_sim_add P (fst st) (u (nfa P ! i))) (\<lambda>(in1, b1).
               and_then (cre_sim_add P in1 (v (nfa P ! i))) (\<lambda>(in2, b2).
                 feed_nodes P prev c is (in2, snd st \<or> b1 \<or> b2)))
             else feed_nodes P prev c is st)
      else feed_nodes P prev c is st)"

definition cre_sim_feedc :: "cre_sim \<Rightarrow> 8 word \<Rightarrow> (cre_sim \<times> bool) outcome" where
  "cre_sim_feedc s c =
     (let tmp = in_st s;
          s1 = s\<lparr>in_st := lastin s\<rparr>;
          s2 = s1\<lparr>lastin := tmp\<rparr>
      in case clear_cells (in_st s2) [0..<nat (nfa_len (pat s2))] of
           Inl e \<Rightarrow> Some (Inl e)
         | Inr cleared \<Rightarrow>
             and_then
               (feed_nodes (pat s2) (lastin s2) c [0..<nat (nfa_len (pat s2))] (cleared, False))
               (\<lambda>(inb, res). Some (Inr (s2\<lparr>in_st := inb\<rparr>, res))))"

subsection \<open>cre\_iter\<close>

text \<open>\<^verbatim>\<open>cre_iter_reset\<close>: two assignments, \<^verbatim>\<open>paths_len = 0\<close> and \<^verbatim>\<open>buf_len = 0\<close>.\<close>

definition cre_iter_reset :: "cre_iter \<Rightarrow> cre_iter" where
  "cre_iter_reset it = (let it1 = it\<lparr>paths_len := 0\<rparr> in it1\<lparr>buf_len := 0\<rparr>)"

text \<open>
  \<^verbatim>\<open>cre_iter_init\<close> writes the pattern, both path fields and both lengths and
  capacities, and resets; it assigns \<^verbatim>\<open>buf_len\<close> twice and never \<^verbatim>\<open>buf\<close>, which
  therefore keeps whatever the caller's struct held. \<^verbatim>\<open>NULL\<close> is the empty array.
\<close>

definition cre_iter_init :: "cre_iter \<Rightarrow> cre_pat \<Rightarrow> cre_iter" where
  "cre_iter_init it P =
     cre_iter_reset
       (it\<lparr>it_pat := P, paths_len := 0, paths_cap := 0, paths := [],
            buf_len := 0, buf_cap := 0, buf_len := 0\<rparr>)"

text \<open>
  Growing the path array. \<^verbatim>\<open>realloc\<close> keeps the old cells and appends cells of
  indeterminate contents, for which \<open>junk_path\<close> stands: of such a cell the loop
  that follows overwrites \<^verbatim>\<open>sim\<close>, \<^verbatim>\<open>Gs\<close> and \<^verbatim>\<open>Ge\<close>, and \<^verbatim>\<open>Ms\<close> and \<^verbatim>\<open>Me\<close> are
  written when the cell becomes a path, before they are read. The model keeps the
  cells at their indices, so the pointer \<^verbatim>\<open>p\<close> taken before the \<^verbatim>\<open>realloc\<close> still
  names cell \<open>i\<close> afterwards (the case where the block is not moved).
\<close>

definition junk_path :: cre_iter_path where
  "junk_path =
     \<lparr>sim = \<lparr>pat = \<lparr>nfa_len = 0, nfa = [], nfa_start = 0, src = []\<rparr>, in_st = [], lastin = []\<rparr>,
      Ms = 0, Me = 0, Gs = [], Ge = []\<rparr>"

definition realloc_paths :: "cre_iter_path list \<Rightarrow> int \<Rightarrow> cre_iter_path list" where
  "realloc_paths ps n = take (nat n) ps @ replicate (nat n - length ps) junk_path"

definition malloc_ints :: "int \<Rightarrow> int list" where
  "malloc_ints n = replicate (nat n) 0"

primrec init_slots :: "cre_pat \<Rightarrow> cre_iter_path list \<Rightarrow> nat list \<Rightarrow> cre_fault + cre_iter_path list" where
  "init_slots P ps [] = Inr ps"
| "init_slots P ps (k # ks) =
     (if \<not> k < length ps then Inl OutOfBounds
      else case cre_sim_init P of
        Inl e \<Rightarrow> Inl e
      | Inr s \<Rightarrow>
          init_slots P
            (ps[k := (ps ! k)\<lparr>sim := s, Gs := malloc_ints (nfa_len P), Ge := malloc_ints (nfa_len P)\<rparr>])
            ks)"

text \<open>
  The first \<^verbatim>\<open>if ... else if\<close> of the loop body: reuse a slot whose \<^verbatim>\<open>Ms\<close> is negative,
  or append a path on the last round. The inner \<^verbatim>\<open>for\<close> of the growing branch counts
  with the outer loop's \<^verbatim>\<open>i\<close>, which is left at the new capacity; the result carries
  the iterator, \<^verbatim>\<open>i\<close> and \<^verbatim>\<open>has_newpath\<close>.
\<close>

definition cre_iter_spawn :: "cre_iter \<Rightarrow> int \<Rightarrow> bool \<Rightarrow> cre_fault + (cre_iter \<times> int \<times> bool)" where
  "cre_iter_spawn it i has_newpath =
     (if \<not> (0 \<le> i \<and> nat i < length (paths it)) then Inl OutOfBounds
      else if \<not> has_newpath \<and> Ms (paths it ! nat i) < 0 then
        Inr (it\<lparr>paths := (paths it)[nat i := (paths it ! nat i)\<lparr>Ms := buf_len it, Me := -1\<rparr>]\<rparr>,
             i, True)
      else if \<not> has_newpath \<and> i = paths_len it - 1 then
        (case (if paths_len it \<ge> paths_cap it then
                 (let cap = paths_len it * 2 + 4;
                      it1 = it\<lparr>paths_cap := cap\<rparr>;
                      it2 = it1\<lparr>paths := realloc_paths (paths it1) cap\<rparr>
                  in case init_slots (it_pat it2) (paths it2) [nat (paths_len it2)..<nat cap] of
                       Inl e \<Rightarrow> Inl e
                     | Inr ps \<Rightarrow> Inr (it2\<lparr>paths := ps\<rparr>, max (paths_len it2) cap))
               else Inr (it, i)) of
           Inl e \<Rightarrow> Inl e
         | Inr (it3, i3) \<Rightarrow>
             if \<not> (0 \<le> paths_len it3 \<and> nat (paths_len it3) < length (paths it3)) then Inl OutOfBounds
             else
               Inr (it3\<lparr>paths := (paths it3)[nat (paths_len it3) :=
                            (paths it3 ! nat (paths_len it3))\<lparr>Ms := buf_len it3, Me := -1\<rparr>],
                         paths_len := paths_len it3 + 1\<rparr>,
                    i3, True))
      else Inr (it, i, has_newpath))"

text \<open>
  \<^verbatim>\<open>for (j = 0; !has_instate && j < s->nfa_len; ++j) has_instate = s->in[j];\<close> The
  simulator has no field \<^verbatim>\<open>nfa_len\<close>; its pattern's is meant.
\<close>

primrec has_instate_scan :: "bool list \<Rightarrow> nat list \<Rightarrow> cre_fault + bool" where
  "has_instate_scan inb [] = Inr False"
| "has_instate_scan inb (j # js) =
     (if \<not> j < length inb then Inl OutOfBounds
      else if inb ! j then Inr True
      else has_instate_scan inb js)"

text \<open>
  The second half of the loop body, \<^verbatim>\<open>if (p->Ms >= 0) { ... }\<close>, for the path at cell
  \<open>k\<close> (the \<^verbatim>\<open>p\<close> taken at the top of the round) with the current value of \<^verbatim>\<open>i\<close>. The
  branch for a dead path that has a match is empty in the source.
\<close>

definition cre_iter_advance :: "8 word \<Rightarrow> cre_iter \<Rightarrow> nat \<Rightarrow> int \<Rightarrow> cre_iter outcome" where
  "cre_iter_advance c it k i =
     (if \<not> k < length (paths it) then Some (Inl OutOfBounds)
      else if Ms (paths it ! k) \<ge> 0 then
        and_then (cre_sim_feedc (sim (paths it ! k)) c) (\<lambda>(s, ismatch).
          let p1 = (paths it ! k)\<lparr>sim := s\<rparr>;
              p2 = (if ismatch then p1\<lparr>Me := buf_len it\<rparr> else p1);
              it1 = it\<lparr>paths := (paths it)[k := p2]\<rparr>
          in case has_instate_scan (in_st s) [0..<nat (nfa_len (pat s))] of
               Inl e \<Rightarrow> Some (Inl e)
             | Inr has_instate \<Rightarrow>
                 if \<not> has_instate then
                   (if Me p2 \<ge> 0 then Some (Inr it1)
                    else if i = paths_len it1 - 1 then Some (Inr (it1\<lparr>paths_len := paths_len it1 - 1\<rparr>))
                    else Some (Inr (it1\<lparr>paths := (paths it1)[k := p2\<lparr>Ms := -1\<rparr>]\<rparr>)))
                 else Some (Inr it1))
      else Some (Inr it))"

definition cre_iter_round :: "8 word \<Rightarrow> cre_iter \<Rightarrow> int \<Rightarrow> bool \<Rightarrow> (cre_iter \<times> int \<times> bool) outcome" where
  "cre_iter_round c it i has_newpath =
     (case cre_iter_spawn it i has_newpath of
        Inl e \<Rightarrow> Some (Inl e)
      | Inr (it1, i1, hn1) \<Rightarrow>
          and_then (cre_iter_advance c it1 (nat i) i1) (\<lambda>it2. Some (Inr (it2, i1, hn1))))"

text \<open>
  The \<^verbatim>\<open>for\<close> loop of \<^verbatim>\<open>cre_iter_feedc\<close>. A round can change both \<^verbatim>\<open>i\<close> and
  \<^verbatim>\<open>paths_len\<close>, so the loop is a recursion on the whole loop state; its measure
  is established first.
\<close>

lemma and_then_simps [simp]:
  "and_then None f = None"
  "and_then (Some (Inl e)) f = Some (Inl e)"
  "and_then (Some (Inr x)) f = f x"
  by (simp_all add: and_then_def)

lemma and_then_Inr:
  "and_then m f = Some (Inr y) \<Longrightarrow> \<exists>x. m = Some (Inr x) \<and> f x = Some (Inr y)"
  by (auto simp: and_then_def split: option.splits sum.splits)

lemma spawn_measure:
  assumes "cre_iter_spawn it i hn = Inr (it1, i1, hn1)"
  shows "(it1 = it \<and> i1 = i \<and> hn1 = hn) \<or>
         (\<not> hn \<and> hn1 \<and> i \<le> i1 \<and> paths_len it1 \<le> paths_len it + 1)"
  using assms
  by (auto simp: cre_iter_spawn_def Let_def split: if_splits sum.splits)

lemma advance_paths_len:
  assumes "cre_iter_advance c it k i = Some (Inr it2)"
  shows "paths_len it2 \<le> paths_len it"
  using assms
  by (auto simp: cre_iter_advance_def Let_def split: if_splits sum.splits prod.splits
           dest!: and_then_Inr)

lemma round_measure:
  assumes "cre_iter_round c it i hn = Some (Inr (it2, i2, hn2))" "i < paths_len it"
  shows "nat (2 * (paths_len it2 - (i2 + 1)) + (if hn2 then 0 else 1))
          < nat (2 * (paths_len it - i) + (if hn then 0 else 1))"
proof -
  from assms(1) obtain it1 where
    sp: "cre_iter_spawn it i hn = Inr (it1, i2, hn2)" and
    ad: "cre_iter_advance c it1 (nat i) i2 = Some (Inr it2)"
    by (auto simp: cre_iter_round_def split: sum.splits dest!: and_then_Inr)
  from advance_paths_len [OF ad] have le: "paths_len it2 \<le> paths_len it1" .
  from spawn_measure [OF sp] show ?thesis
    using le assms(2) by (auto split: if_splits)
qed

function cre_iter_loop :: "8 word \<Rightarrow> cre_iter \<Rightarrow> int \<Rightarrow> bool \<Rightarrow> cre_iter outcome" where
  "cre_iter_loop c it i has_newpath =
     (if i < paths_len it then
        (case cre_iter_round c it i has_newpath of
           None \<Rightarrow> None
         | Some (Inl e) \<Rightarrow> Some (Inl e)
         | Some (Inr (it1, i1, hn1)) \<Rightarrow> cre_iter_loop c it1 (i1 + 1) hn1)
      else Some (Inr it))"
  by pat_completeness auto
termination
  by (relation "measure (\<lambda>(c, it, i, hn). nat (2 * (paths_len it - i) + (if hn then 0 else 1)))")
     (auto dest: round_measure)

text \<open>
  \<^verbatim>\<open>cre_iter_feedc\<close> is declared \<^verbatim>\<open>bool\<close> and has no \<^verbatim>\<open>return\<close>: the caller gets no
  defined value, and the model returns the iterator alone. The iterator has no
  field for matches.
\<close>

definition cre_iter_feedc :: "cre_iter \<Rightarrow> 8 word \<Rightarrow> cre_iter outcome" where
  "cre_iter_feedc it c = cre_iter_loop c it 0 False"

subsection \<open>Sequences of calls\<close>

primrec sim_feeds :: "cre_sim \<Rightarrow> 8 word list \<Rightarrow> cre_sim outcome" where
  "sim_feeds s [] = Some (Inr s)"
| "sim_feeds s (c # cs) = and_then (cre_sim_feedc s c) (\<lambda>(s1, b). sim_feeds s1 cs)"

datatype iter_op = Reset | Feed "8 word"

primrec iter_run :: "cre_iter \<Rightarrow> iter_op list \<Rightarrow> cre_iter outcome" where
  "iter_run it [] = Some (Inr it)"
| "iter_run it (x # xs) =
     (case x of
        Reset \<Rightarrow> iter_run (cre_iter_reset it) xs
      | Feed c \<Rightarrow> and_then (cre_iter_feedc it c) (\<lambda>it1. iter_run it1 xs))"

text \<open>
  What a caller can see of an iterator: its pattern, the paths in use (the first
  \<^verbatim>\<open>paths_len\<close> cells) and the retained bytes (the first \<^verbatim>\<open>buf_len\<close> cells). Cells
  beyond the lengths are spare capacity.
\<close>

definition iter_view :: "cre_iter \<Rightarrow> cre_pat \<times> int \<times> cre_iter_path list \<times> int \<times> 8 word list" where
  "iter_view it =
     (it_pat it, paths_len it, take (nat (paths_len it)) (paths it),
      buf_len it, take (nat (buf_len it)) (buf it))"

subsection \<open>Well-formed patterns and the closure the specification speaks of\<close>

text \<open>An edge is \<^verbatim>\<open>-1\<close> (none), \<^verbatim>\<open>-2\<close> (accept) or an index into the node array.\<close>

definition edge_ok :: "cre_pat \<Rightarrow> int \<Rightarrow> bool" where
  "edge_ok P e = (e = -1 \<or> e = -2 \<or> (0 \<le> e \<and> e < nfa_len P))"

definition node_ok :: "cre_pat \<Rightarrow> cre_node \<Rightarrow> bool" where
  "node_ok P n =
     (edge_ok P (u n) \<and> edge_ok P (v n) \<and> (kind n = cre_EPS \<or> length (set_tab n) = 256))"

definition pat_ok :: "cre_pat \<Rightarrow> bool" where
  "pat_ok P = (nfa_len P = int (length (nfa P)) \<and> list_all (node_ok P) (nfa P))"

text \<open>A simulator as \<^verbatim>\<open>cre_sim_init\<close> allocates it: two buffers of \<^verbatim>\<open>nfa_len\<close> cells.\<close>

definition sim_ok :: "cre_sim \<Rightarrow> bool" where
  "sim_ok s =
     (length (in_st s) = nat (nfa_len (pat s)) \<and> length (lastin s) = nat (nfa_len (pat s)))"

text \<open>
  The epsilon nodes form no cycle: some rank falls along every edge that leaves an
  epsilon node for another node.
\<close>

definition eps_falls :: "cre_pat \<Rightarrow> (nat \<Rightarrow> nat) \<Rightarrow> nat \<Rightarrow> int \<Rightarrow> bool" where
  "eps_falls P r i e = (e < 0 \<or> length (nfa P) \<le> nat e \<or> r (nat e) < r i)"

definition eps_ranked :: "cre_pat \<Rightarrow> (nat \<Rightarrow> nat) \<Rightarrow> bool" where
  "eps_ranked P r =
     list_all
       (\<lambda>i. kind (nfa P ! i) = cre_SET \<or>
            (eps_falls P r i (u (nfa P ! i)) \<and> eps_falls P r i (v (nfa P ! i))))
       [0..<length (nfa P)]"

text \<open>
  Epsilon-closure in the specification's words. \<open>eps_accept P e\<close>: following edge
  \<open>e\<close> through epsilon nodes reaches Accept. \<open>eps_closure P e j\<close>: following edge \<open>e\<close>
  through epsilon nodes reaches the byte-matching node \<open>j\<close>.
\<close>

inductive eps_accept :: "cre_pat \<Rightarrow> int \<Rightarrow> bool" for P :: cre_pat where
  accept_edge: "eps_accept P (-2)"
| accept_u: "0 \<le> i \<Longrightarrow> i < nfa_len P \<Longrightarrow> kind (nfa P ! nat i) = cre_EPS \<Longrightarrow>
     eps_accept P (u (nfa P ! nat i)) \<Longrightarrow> eps_accept P i"
| accept_v: "0 \<le> i \<Longrightarrow> i < nfa_len P \<Longrightarrow> kind (nfa P ! nat i) = cre_EPS \<Longrightarrow>
     eps_accept P (v (nfa P ! nat i)) \<Longrightarrow> eps_accept P i"

inductive eps_closure :: "cre_pat \<Rightarrow> int \<Rightarrow> int \<Rightarrow> bool" for P :: cre_pat where
  closure_set: "0 \<le> i \<Longrightarrow> i < nfa_len P \<Longrightarrow> kind (nfa P ! nat i) = cre_SET \<Longrightarrow>
     eps_closure P i i"
| closure_u: "0 \<le> i \<Longrightarrow> i < nfa_len P \<Longrightarrow> kind (nfa P ! nat i) = cre_EPS \<Longrightarrow>
     eps_closure P (u (nfa P ! nat i)) j \<Longrightarrow> eps_closure P i j"
| closure_v: "0 \<le> i \<Longrightarrow> i < nfa_len P \<Longrightarrow> kind (nfa P ! nat i) = cre_EPS \<Longrightarrow>
     eps_closure P (v (nfa P ! nat i)) j \<Longrightarrow> eps_closure P i j"

text \<open>
  Some node active before the call has \<open>c\<close> in its byte set and reaches Accept from
  one of its two edges through epsilon-closure.
\<close>

definition node_fires :: "cre_pat \<Rightarrow> bool list \<Rightarrow> 8 word \<Rightarrow> nat \<Rightarrow> bool" where
  "node_fires P act c i =
     (act ! i \<and> kind (nfa P ! i) = cre_SET \<and> set_tab (nfa P ! i) ! unat c \<and>
      (eps_accept P (u (nfa P ! i)) \<or> eps_accept P (v (nfa P ! i))))"

definition step_accepts :: "cre_sim \<Rightarrow> 8 word \<Rightarrow> bool" where
  "step_accepts s c = (\<exists>i \<in> set [0..<length (nfa (pat s))]. node_fires (pat s) (in_st s) c i)"

text \<open>No epsilon node is marked in a state buffer.\<close>

definition quiet :: "cre_pat \<Rightarrow> bool list \<Rightarrow> bool" where
  "quiet P inb = (\<forall>j < length inb. inb ! j \<longrightarrow> kind (nfa P ! j) = cre_SET)"

subsection \<open>Example patterns\<close>

definition only :: "nat \<Rightarrow> bool list" where
  "only b = (replicate 256 False)[b := True]"

definition set_node :: "nat \<Rightarrow> int \<Rightarrow> int \<Rightarrow> cre_node" where
  "set_node b e1 e2 = \<lparr>kind = cre_SET, u = e1, v = e2, set_tab = only b\<rparr>"

definition eps_node :: "int \<Rightarrow> int \<Rightarrow> cre_node" where
  "eps_node e1 e2 = \<lparr>kind = cre_EPS, u = e1, v = e2, set_tab = []\<rparr>"

text \<open>The pattern \<^verbatim>\<open>a\<close>: one set node whose edge accepts.\<close>

definition pat_a :: cre_pat where
  "pat_a = \<lparr>nfa_len = 1, nfa = [set_node 97 (-2) (-1)], nfa_start = 0, src = ''a''\<rparr>"

text \<open>The pattern \<^verbatim>\<open>ab?\<close>: after \<^verbatim>\<open>a\<close> an epsilon split to \<^verbatim>\<open>b\<close> or to Accept.\<close>

definition pat_ab_opt :: cre_pat where
  "pat_ab_opt =
     \<lparr>nfa_len = 3, nfa = [set_node 97 1 (-1), eps_node 2 (-2), set_node 98 (-2) (-1)],
      nfa_start = 0, src = ''ab?''\<rparr>"

text \<open>The pattern \<^verbatim>\<open>a?\<close>: the start node is an epsilon split.\<close>

definition pat_a_opt :: cre_pat where
  "pat_a_opt =
     \<lparr>nfa_len = 2, nfa = [eps_node 1 (-2), set_node 97 (-2) (-1)], nfa_start = 0, src = ''a?''\<rparr>"

text \<open>
  The pattern \<^verbatim>\<open>a(b*)*\<close> by the textbook construction: after \<^verbatim>\<open>a\<close> the outer
  split 1 enters the inner split 2 or accepts, the inner split enters \<^verbatim>\<open>b\<close> or
  returns to the outer split, and \<^verbatim>\<open>b\<close> returns to the inner split.
\<close>

definition pat_nested :: cre_pat where
  "pat_nested =
     \<lparr>nfa_len = 4,
      nfa = [set_node 97 1 (-1), eps_node 2 (-2), eps_node 3 1, set_node 98 2 (-1)],
      nfa_start = 0, src = ''a(b*)*''\<rparr>"

text \<open>A set node followed by an epsilon node whose first edge is itself.\<close>

definition pat_self :: cre_pat where
  "pat_self =
     \<lparr>nfa_len = 2, nfa = [set_node 97 1 (-1), eps_node 1 (-2)], nfa_start = 0, src = ''a''\<rparr>"

definition rank_ab_opt :: "nat \<Rightarrow> nat" where
  "rank_ab_opt i = (if i = 1 then 1 else 0)"

definition sim_at :: "cre_pat \<Rightarrow> bool list \<Rightarrow> cre_sim" where
  "sim_at P act = \<lparr>pat = P, in_st = act, lastin = replicate (length act) False\<rparr>"

text \<open>
  An iterator over \<^verbatim>\<open>a\<close> with four allocated cells, of which the first is a path
  anchored at 0 whose simulator is at the start node.
\<close>

definition slot_a :: "int \<Rightarrow> int \<Rightarrow> cre_iter_path" where
  "slot_a ms me = \<lparr>sim = sim_at pat_a [True], Ms = ms, Me = me, Gs = [0], Ge = [0]\<rparr>"

definition dead_slot_a :: cre_iter_path where
  "dead_slot_a =
     \<lparr>sim = \<lparr>pat = pat_a, in_st = [False], lastin = [True]\<rparr>, Ms = 0, Me = 0, Gs = [0], Ge = [0]\<rparr>"

definition iter_a :: cre_iter where
  "iter_a =
     \<lparr>it_pat = pat_a, paths_len = 1, paths_cap = 4,
      paths = [slot_a 0 (-1), slot_a 0 0, slot_a 0 0, slot_a 0 0],
      buf_len = 0, buf_cap = 0, buf = []\<rparr>"

subsection \<open>The iterator in memory\<close>

text \<open>
  For the frame of \<^verbatim>\<open>cre_iter_reset\<close> the arrays cannot be values: whether a pointer
  changed, or a block was freed or allocated, has to be visible. Here memory is a
  heap of blocks, allocated exactly at the addresses in its domain; a pointer is an
  address, \<^verbatim>\<open>NULL\<close> is 0. The structs hold their pointer fields as addresses: the two
  state buffers of a simulator, the \<^verbatim>\<open>Gs\<close> and \<^verbatim>\<open>Ge\<close> arrays of a path, the path array
  and the byte buffer of an iterator. \<^verbatim>\<open>free\<close> removes an address from the domain.
\<close>

type_synonym addr = nat

record cre_sim_mem =
  m_pat :: cre_pat
  m_in :: addr
  m_lastin :: addr

record cre_iter_path_mem =
  m_sim :: cre_sim_mem
  m_Ms :: int
  m_Me :: int
  m_Gs :: addr
  m_Ge :: addr

record cre_iter_mem =
  m_it_pat :: cre_pat
  m_paths_len :: int
  m_paths_cap :: int
  m_paths :: addr
  m_buf_len :: int
  m_buf_cap :: int
  m_buf :: addr

datatype block =
  Bools "bool list" | Ints "int list" | Bytes "8 word list"
| Path_array "cre_iter_path_mem list" | Iter_struct cre_iter_mem

type_synonym heap = "addr \<Rightarrow> block option"

definition heap_free :: "heap \<Rightarrow> addr \<Rightarrow> heap" where
  "heap_free h p = h(p := None)"

text \<open>
  A write through \<^verbatim>\<open>iter->field = ...\<close>: the block at the address must be an iterator
  struct. \<^verbatim>\<open>cre_iter_reset\<close> is two such writes and nothing else.
\<close>

definition store_iter :: "heap \<Rightarrow> addr \<Rightarrow> (cre_iter_mem \<Rightarrow> cre_iter_mem) \<Rightarrow> cre_fault + heap" where
  "store_iter h iter f =
     (case h iter of
        Some (Iter_struct ic) \<Rightarrow> Inr (h(iter \<mapsto> Iter_struct (f ic)))
      | _ \<Rightarrow> Inl OutOfBounds)"

definition cre_iter_reset_heap :: "heap \<Rightarrow> addr \<Rightarrow> cre_fault + heap" where
  "cre_iter_reset_heap h iter =
     (case store_iter h iter (\<lambda>ic. ic\<lparr>m_paths_len := 0\<rparr>) of
        Inl e \<Rightarrow> Inl e
      | Inr h1 \<Rightarrow> store_iter h1 iter (\<lambda>ic. ic\<lparr>m_buf_len := 0\<rparr>))"

text \<open>
  Reading the heap back into the values of the model above: \<open>iter_of\<close> follows the
  pointers of the iterator at an address and yields the \<open>cre_iter\<close> it stands for.
\<close>

definition bools_at :: "heap \<Rightarrow> addr \<Rightarrow> bool list option" where
  "bools_at h p = (case h p of Some (Bools bs) \<Rightarrow> Some bs | _ \<Rightarrow> None)"

definition ints_at :: "heap \<Rightarrow> addr \<Rightarrow> int list option" where
  "ints_at h p = (case h p of Some (Ints ns) \<Rightarrow> Some ns | _ \<Rightarrow> None)"

definition bytes_at :: "heap \<Rightarrow> addr \<Rightarrow> 8 word list option" where
  "bytes_at h p = (if p = 0 then Some [] else case h p of Some (Bytes bs) \<Rightarrow> Some bs | _ \<Rightarrow> None)"

definition path_array_at :: "heap \<Rightarrow> addr \<Rightarrow> cre_iter_path_mem list option" where
  "path_array_at h p =
     (if p = 0 then Some [] else case h p of Some (Path_array ps) \<Rightarrow> Some ps | _ \<Rightarrow> None)"

definition path_of :: "heap \<Rightarrow> cre_iter_path_mem \<Rightarrow> cre_iter_path option" where
  "path_of h pm =
     (case (bools_at h (m_in (m_sim pm)), bools_at h (m_lastin (m_sim pm)),
            ints_at h (m_Gs pm), ints_at h (m_Ge pm)) of
        (Some a, Some b, Some gs, Some ge) \<Rightarrow>
          Some \<lparr>sim = \<lparr>pat = m_pat (m_sim pm), in_st = a, lastin = b\<rparr>,
                Ms = m_Ms pm, Me = m_Me pm, Gs = gs, Ge = ge\<rparr>
      | _ \<Rightarrow> None)"

primrec paths_of :: "heap \<Rightarrow> cre_iter_path_mem list \<Rightarrow> cre_iter_path list option" where
  "paths_of h [] = Some []"
| "paths_of h (pm # pms) =
     (case path_of h pm of
        None \<Rightarrow> None
      | Some p \<Rightarrow> (case paths_of h pms of None \<Rightarrow> None | Some ps \<Rightarrow> Some (p # ps)))"

definition iter_of :: "heap \<Rightarrow> addr \<Rightarrow> cre_iter option" where
  "iter_of h iter =
     (case h iter of
        Some (Iter_struct ic) \<Rightarrow>
          (case path_array_at h (m_paths ic) of
             None \<Rightarrow> None
           | Some pms \<Rightarrow>
               (case paths_of h pms of
                  None \<Rightarrow> None
                | Some ps \<Rightarrow>
                    (case bytes_at h (m_buf ic) of
                       None \<Rightarrow> None
                     | Some bs \<Rightarrow>
                         Some \<lparr>it_pat = m_it_pat ic, paths_len = m_paths_len ic,
                               paths_cap = m_paths_cap ic, paths = ps,
                               buf_len = m_buf_len ic, buf_cap = m_buf_cap ic, buf = bs\<rparr>)))
      | _ \<Rightarrow> None)"

text \<open>
  A heap with an iterator over \<^verbatim>\<open>a\<close> at address 1: its path array (one path) at 2,
  that path's state buffers at 3 and 4, its \<^verbatim>\<open>Gs\<close> and \<^verbatim>\<open>Ge\<close> at 5 and 6, and the byte
  buffer at 7.
\<close>

definition slot_mem :: cre_iter_path_mem where
  "slot_mem = \<lparr>m_sim = \<lparr>m_pat = pat_a, m_in = 3, m_lastin = 4\<rparr>, m_Ms = 0, m_Me = -1, m_Gs = 5, m_Ge = 6\<rparr>"

definition iter_mem :: cre_iter_mem where
  "iter_mem = \<lparr>m_it_pat = pat_a, m_paths_len = 1, m_paths_cap = 1, m_paths = 2,
               m_buf_len = 1, m_buf_cap = 4, m_buf = 7\<rparr>"

definition heap_a :: heap where
  "heap_a = [1 \<mapsto> Iter_struct iter_mem, 2 \<mapsto> Path_array [slot_mem], 3 \<mapsto> Bools [True],
             4 \<mapsto> Bools [False], 5 \<mapsto> Ints [0], 6 \<mapsto> Ints [0], 7 \<mapsto> Bytes [97, 0, 0, 0]]"

section \<open>Properties\<close>

subsection \<open>The closure function\<close>


lemma add_no_edge: "cre_sim_add P inb (-1) = Some (Inr (inb, False))"
  by (subst cre_sim_add.simps) simp

lemma add_accept: "cre_sim_add P inb (-2) = Some (Inr (inb, True))"
  by (subst cre_sim_add.simps) simp

lemma add_outside:
  assumes "\<not> (0 \<le> i \<and> i < nfa_len P \<and> nat i < length (nfa P))"
  shows "\<exists>res. cre_sim_add P inb i = Some res"
  using assms by (subst cre_sim_add.simps) auto

lemma add_set_node:
  assumes "0 \<le> i" "i < nfa_len P" "nat i < length (nfa P)" "kind (nfa P ! nat i) = cre_SET"
  shows "cre_sim_add P inb i =
           (if nat i < length inb then Some (Inr (inb[nat i := True], False))
            else Some (Inl OutOfBounds))"
  using assms by (subst cre_sim_add.simps) auto

lemma add_eps_node:
  assumes "0 \<le> i" "i < nfa_len P" "nat i < length (nfa P)" "kind (nfa P ! nat i) = cre_EPS"
  shows "cre_sim_add P inb i =
           and_then (cre_sim_add P inb (u (nfa P ! nat i))) (\<lambda>(in1, b1).
           and_then (cre_sim_add P in1 (v (nfa P ! nat i))) (\<lambda>(in2, b2).
             Some (Inr (in2, b1 \<or> b2))))"
  using assms
  by (subst cre_sim_add.simps)
     (auto simp: and_then_def split: option.splits sum.splits Option.bind_splits)

lemma kind_cases: "kind n = cre_EPS \<or> kind n = cre_SET"
  by (cases "kind n") auto

lemma eps_rankedD:
  assumes "eps_ranked P r" "i < length (nfa P)" "kind (nfa P ! i) = cre_EPS"
  shows "eps_falls P r i (u (nfa P ! i))" "eps_falls P r i (v (nfa P ! i))"
proof -
  from assms(2) have "i \<in> set [0..<length (nfa P)]" by simp
  with assms(1) have
    "kind (nfa P ! i) = cre_SET \<or>
       (eps_falls P r i (u (nfa P ! i)) \<and> eps_falls P r i (v (nfa P ! i)))"
    unfolding eps_ranked_def list_all_iff by blast
  with assms(3) show "eps_falls P r i (u (nfa P ! i))" "eps_falls P r i (v (nfa P ! i))"
    by auto
qed

lemma add_terminates:
  assumes "eps_ranked P r"
  shows "\<exists>res. cre_sim_add P inb i = Some res"
proof (induction "r (nat i)" arbitrary: i inb rule: less_induct)
  case less
  show ?case
  proof (cases "0 \<le> i \<and> i < nfa_len P \<and> nat i < length (nfa P)")
    case False
    then show ?thesis by (rule add_outside)
  next
    case inside: True
    show ?thesis
    proof (cases "kind (nfa P ! nat i)")
      case cre_SET
      with inside show ?thesis by (simp add: add_set_node)
    next
      case cre_EPS
      have step: "\<exists>res. cre_sim_add P b e = Some res" if "eps_falls P r (nat i) e" for b e
      proof (cases "0 \<le> e \<and> e < nfa_len P \<and> nat e < length (nfa P)")
        case False
        then show ?thesis by (rule add_outside)
      next
        case True
        with that have "r (nat e) < r (nat i)" by (auto simp: eps_falls_def)
        then show ?thesis by (rule less.hyps)
      qed
      from inside cre_EPS assms
      have fu: "eps_falls P r (nat i) (u (nfa P ! nat i))"
        and fv: "eps_falls P r (nat i) (v (nfa P ! nat i))"
        by (auto dest: eps_rankedD)
      from step [OF fu] obtain r1 where r1: "cre_sim_add P inb (u (nfa P ! nat i)) = Some r1"
        by blast
      show ?thesis
      proof (cases r1)
        case (Inl e)
        with r1 inside cre_EPS show ?thesis by (simp add: add_eps_node)
      next
        case (Inr st)
        obtain in1 b1 where st: "st = (in1, b1)" by (cases st)
        from step [OF fv] obtain r2 where r2: "cre_sim_add P in1 (v (nfa P ! nat i)) = Some r2"
          by blast
        with r1 Inr st inside cre_EPS show ?thesis
          by (cases r2) (auto simp: add_eps_node)
      qed
    qed
  qed
qed

lemma add_length_aux:
  assumes "cre_sim_add P inb i = Some res"
  shows "case res of Inl e \<Rightarrow> True | Inr (inb', b) \<Rightarrow> length inb' = length inb"
proof -
  let ?Q = "\<lambda>x res. case res of Inl e \<Rightarrow> True
                     | Inr (inb', b) \<Rightarrow> length inb' = length (snd (fst x))"
  have "?Q ((P, inb), i) res"
  proof (rule cre_sim_add.raw_induct [where Pa = ?Q, OF _ assms], goal_cases)
    case (1 add P inb i res)
    have IH: "length in1 = length in0" if "add P0 in0 i0 = Some (Inr (in1, b))"
      for P0 in0 i0 in1 b
      using "1"(1) [OF that] by simp
    from "1"(2) show ?case
      by (auto split: if_splits sum.splits Option.bind_splits prod.splits dest!: IH)
  qed
  then show ?thesis by (cases res) auto
qed

lemma add_length:
  "cre_sim_add P inb i = Some (Inr (inb', b)) \<Longrightarrow> length inb' = length inb"
  by (drule add_length_aux) simp

lemma node_fields [simp]:
  "kind (eps_node a b) = cre_EPS" "u (eps_node a b) = a" "v (eps_node a b) = b"
  "kind (set_node c a b) = cre_SET" "u (set_node c a b) = a" "v (set_node c a b) = b"
  "set_tab (set_node c a b) = only c"
  by (simp_all add: eps_node_def set_node_def)

lemma eps_accept_no_edge [simp]: "\<not> eps_accept P (-1)"
  by (auto elim: eps_accept.cases)

lemma eps_accept_set:
  "0 \<le> i \<Longrightarrow> kind (nfa P ! nat i) = cre_SET \<Longrightarrow> \<not> eps_accept P i"
  by (auto elim: eps_accept.cases)

lemma eps_accept_eps:
  assumes "0 \<le> i" "i < nfa_len P" "kind (nfa P ! nat i) = cre_EPS"
  shows "eps_accept P i \<longleftrightarrow>
           eps_accept P (u (nfa P ! nat i)) \<or> eps_accept P (v (nfa P ! nat i))"
  using assms by (auto elim: eps_accept.cases intro: eps_accept.intros)

lemma pat_ok_node:
  "pat_ok P \<Longrightarrow> i < length (nfa P) \<Longrightarrow> node_ok P (nfa P ! i)"
  by (simp add: pat_ok_def list_all_length)

lemma add_value:
  assumes "pat_ok P" "eps_ranked P r"
  shows "edge_ok P i \<Longrightarrow> length inb = length (nfa P) \<Longrightarrow>
         \<exists>inb'. cre_sim_add P inb i = Some (Inr (inb', eps_accept P i)) \<and>
                length inb' = length inb"
proof (induction "r (nat i)" arbitrary: i inb rule: less_induct)
  case less
  from assms(1) have len: "nfa_len P = int (length (nfa P))" by (simp add: pat_ok_def)
  show ?case
  proof (cases "0 \<le> i")
    case False
    with less.prems(1) have "i = -1 \<or> i = -2" by (auto simp: edge_ok_def)
    then show ?thesis by (auto simp: add_no_edge add_accept intro: eps_accept.accept_edge)
  next
    case True
    with less.prems(1) have inside: "0 \<le> i" "i < nfa_len P" "nat i < length (nfa P)"
      using len by (auto simp: edge_ok_def)
    let ?n = "nfa P ! nat i"
    show ?thesis
    proof (cases "kind ?n")
      case cre_SET
      with inside less.prems(2) show ?thesis
        by (simp add: add_set_node eps_accept_set)
    next
      case cre_EPS
      from pat_ok_node [OF assms(1) inside(3)]
      have ok: "edge_ok P (u ?n)" "edge_ok P (v ?n)" by (simp_all add: node_ok_def)
      from eps_rankedD [OF assms(2) inside(3) cre_EPS]
      have falls: "eps_falls P r (nat i) (u ?n)" "eps_falls P r (nat i) (v ?n)" .
      have step: "\<exists>b'. cre_sim_add P b e = Some (Inr (b', eps_accept P e)) \<and> length b' = length b"
        if "edge_ok P e" "eps_falls P r (nat i) e" "length b = length (nfa P)" for b e
      proof (cases "0 \<le> e")
        case False
        with that(1) have "e = -1 \<or> e = -2" by (auto simp: edge_ok_def)
        then show ?thesis by (auto simp: add_no_edge add_accept intro: eps_accept.accept_edge)
      next
        case True
        with that(1,2) len have "r (nat e) < r (nat i)"
          by (auto simp: eps_falls_def edge_ok_def)
        from less.hyps [OF this that(1) that(3)] show ?thesis .
      qed
      from step [OF ok(1) falls(1) less.prems(2)] obtain in1 where
        a1: "cre_sim_add P inb (u ?n) = Some (Inr (in1, eps_accept P (u ?n)))" and
        l1: "length in1 = length inb" by blast
      from step [OF ok(2) falls(2)] l1 less.prems(2) obtain in2 where
        a2: "cre_sim_add P in1 (v ?n) = Some (Inr (in2, eps_accept P (v ?n)))" and
        l2: "length in2 = length in1" by auto
      from inside cre_EPS a1 a2 l1 l2 show ?thesis
        by (simp add: add_eps_node eps_accept_eps)
    qed
  qed
qed

subsection \<open>Buffers and resets\<close>

lemma clear_cells_length:
  "clear_cells xs is = Inr ys \<Longrightarrow> length ys = length xs"
  by (induction "is" arbitrary: xs) (auto split: if_splits)

lemma clear_cells_ok:
  "\<forall>i \<in> set is. i < length xs \<Longrightarrow> \<exists>ys. clear_cells xs is = Inr ys \<and> length ys = length xs"
proof (induction "is" arbitrary: xs)
  case Nil
  then show ?case by simp
next
  case (Cons i "is")
  from Cons.IH [of "xs[i := False]"] Cons.prems show ?case by auto
qed

lemma reset_cells_result:
  assumes "\<forall>i \<in> set is. i < length a \<and> i < length b"
  shows "reset_cells a b is =
           Inr (map (\<lambda>j. a ! j \<and> j \<notin> set is) [0..<length a],
                map (\<lambda>j. b ! j \<and> j \<notin> set is) [0..<length b])"
  using assms
proof (induction "is" arbitrary: a b)
  case Nil
  then show ?case by (simp add: map_nth)
next
  case (Cons i "is")
  then show ?case
    by (auto simp: nth_list_update intro!: nth_equalityI)
qed

lemma reset_cells_all:
  assumes "length a = n" "length b = n"
  shows "reset_cells a b [0..<n] = Inr (replicate n False, replicate n False)"
proof -
  have "reset_cells a b [0..<n] =
          Inr (map (\<lambda>j. a ! j \<and> j \<notin> set [0..<n]) [0..<length a],
               map (\<lambda>j. b ! j \<and> j \<notin> set [0..<n]) [0..<length b])"
    using assms by (intro reset_cells_result) simp
  also have "map (\<lambda>j. a ! j \<and> j \<notin> set [0..<n]) [0..<length a] = replicate n False"
    using assms by (auto intro!: nth_equalityI)
  also have "map (\<lambda>j. b ! j \<and> j \<notin> set [0..<n]) [0..<length b] = replicate n False"
    using assms by (auto intro!: nth_equalityI)
  finally show ?thesis .
qed

lemma reset_ignores_contents:
  assumes "sim_ok s"
  shows "cre_sim_reset s = cre_sim_init (pat s)"
  using assms
  by (simp add: cre_sim_reset_def cre_sim_init_def sim_ok_def malloc_bools_def reset_cells_all)

lemma reset_sim_ok:
  "sim_ok s \<Longrightarrow> cre_sim_reset s = Inr s1 \<Longrightarrow> sim_ok s1 \<and> pat s1 = pat s"
  by (auto simp: cre_sim_reset_def sim_ok_def reset_cells_all split: if_splits)

lemma feed_nodes_length:
  "feed_nodes P prev c is (inb, res) = Some (Inr (inb', res')) \<Longrightarrow> length inb' = length inb"
proof (induction "is" arbitrary: inb res)
  case Nil
  then show ?case by simp
next
  case (Cons i "is")
  show ?case
  proof (cases "i < length prev \<and> prev ! i \<and> i < length (nfa P) \<and>
                node_valid (nfa P ! i) c = Inr True")
    case False
    with Cons.prems have "feed_nodes P prev c is (inb, res) = Some (Inr (inb', res'))"
      by (auto split: if_splits sum.splits)
    then show ?thesis by (rule Cons.IH)
  next
    case True
    with Cons.prems obtain in1 b1 in2 b2 where
      a1: "cre_sim_add P inb (u (nfa P ! i)) = Some (Inr (in1, b1))" and
      a2: "cre_sim_add P in1 (v (nfa P ! i)) = Some (Inr (in2, b2))" and
      rest: "feed_nodes P prev c is (in2, res \<or> b1 \<or> b2) = Some (Inr (inb', res'))"
      by (auto dest!: and_then_Inr)
    from Cons.IH [OF rest] add_length [OF a1] add_length [OF a2] show ?thesis by simp
  qed
qed

lemma feedc_preserves:
  assumes "cre_sim_feedc s c = Some (Inr (s1, b))"
  shows "pat s1 = pat s \<and> length (in_st s1) = length (lastin s) \<and> lastin s1 = in_st s"
  using assms
  by (auto simp: cre_sim_feedc_def Let_def split: sum.splits prod.splits
           dest!: and_then_Inr feed_nodes_length clear_cells_length)

lemma feedc_sim_ok:
  "sim_ok s \<Longrightarrow> cre_sim_feedc s c = Some (Inr (s1, b)) \<Longrightarrow> sim_ok s1 \<and> pat s1 = pat s"
  by (drule feedc_preserves) (auto simp: sim_ok_def)

lemma sim_feeds_ok:
  "sim_ok s \<Longrightarrow> sim_feeds s cs = Some (Inr s1) \<Longrightarrow> sim_ok s1 \<and> pat s1 = pat s"
proof (induction cs arbitrary: s)
  case Nil
  then show ?case by simp
next
  case (Cons c cs)
  from Cons.prems(2) obtain s2 b where
    f: "cre_sim_feedc s c = Some (Inr (s2, b))" and r: "sim_feeds s2 cs = Some (Inr s1)"
    by (auto dest!: and_then_Inr)
  from feedc_sim_ok [OF Cons.prems(1) f] Cons.IH [OF _ r] show ?case by simp
qed

subsection \<open>An iterator without paths\<close>

lemma feedc_no_paths: "paths_len it = 0 \<Longrightarrow> cre_iter_feedc it c = Some (Inr it)"
  by (simp add: cre_iter_feedc_def)

lemma reset_idle: "paths_len it = 0 \<Longrightarrow> buf_len it = 0 \<Longrightarrow> cre_iter_reset it = it"
  by (cases it) (simp add: cre_iter_reset_def)

lemma iter_run_idle:
  "paths_len it = 0 \<Longrightarrow> buf_len it = 0 \<Longrightarrow> iter_run it ops = Some (Inr it)"
proof (induction ops)
  case Nil
  then show ?case by simp
next
  case (Cons x ops)
  then show ?case
    by (cases x) (simp_all add: feedc_no_paths reset_idle)
qed

subsection \<open>One feed of the simulator\<close>

lemma char_index:
  fixes c :: "8 word"
  assumes "0 \<le> sint c"
  shows "nat (sint c) = unat c" "unat c < 256"
proof -
  have "sint c < 2 ^ (8 - 1)" using sint_lt [of c] by simp
  with assms have "take_bit 8 (sint c) = sint c" by (simp add: take_bit_int_eq_self)
  with uint_sint [of c] have "uint c = sint c" by simp
  then show "nat (sint c) = unat c" by (simp add: unat_eq_nat_uint)
  show "unat c < 256" using unsigned_less [of c, where 'a = nat] by simp
qed

lemma node_valid_ok:
  assumes "node_ok P n" "0 \<le> sint c"
  shows "node_valid n c = Inr (kind n = cre_SET \<and> set_tab n ! unat c)"
  using assms char_index [OF assms(2)]
  by (cases "kind n") (auto simp: node_valid_def node_ok_def)

lemma feed_nodes_value:
  assumes "pat_ok P" "eps_ranked P r" "0 \<le> sint c"
  shows "\<forall>i \<in> set is. i < length prev \<and> i < length (nfa P) \<Longrightarrow> length inb = length (nfa P) \<Longrightarrow>
         \<exists>inb'. feed_nodes P prev c is (inb, res) =
                  Some (Inr (inb', res \<or> (\<exists>i \<in> set is. node_fires P prev c i))) \<and>
                length inb' = length inb"
proof (induction "is" arbitrary: inb res)
  case Nil
  then show ?case by simp
next
  case (Cons i "is")
  from Cons.prems(1) have i: "i < length prev" "i < length (nfa P)" and
    rest: "\<forall>i \<in> set is. i < length prev \<and> i < length (nfa P)" by simp_all
  let ?n = "nfa P ! i"
  from pat_ok_node [OF assms(1) i(2)] have nok: "node_ok P ?n" .
  note nv = node_valid_ok [OF nok assms(3)]
  show ?case
  proof (cases "prev ! i \<and> kind ?n = cre_SET \<and> set_tab ?n ! unat c")
    case False
    then have nf: "\<not> node_fires P prev c i" by (auto simp: node_fires_def)
    from Cons.IH [OF rest Cons.prems(2), of res] False i nv nf show ?thesis
      by auto
  next
    case True
    from nok have ok: "edge_ok P (u ?n)" "edge_ok P (v ?n)" by (simp_all add: node_ok_def)
    from add_value [OF assms(1,2) ok(1) Cons.prems(2)] obtain in1 where
      a1: "cre_sim_add P inb (u ?n) = Some (Inr (in1, eps_accept P (u ?n)))" and
      l1: "length in1 = length inb" by blast
    from add_value [OF assms(1,2) ok(2), of in1] l1 Cons.prems(2) obtain in2 where
      a2: "cre_sim_add P in1 (v ?n) = Some (Inr (in2, eps_accept P (v ?n)))" and
      l2: "length in2 = length in1" by auto
    from l1 l2 Cons.prems(2) have len2: "length in2 = length (nfa P)" by simp
    from True have nf: "node_fires P prev c i \<longleftrightarrow> eps_accept P (u ?n) \<or> eps_accept P (v ?n)"
      by (simp add: node_fires_def)
    from Cons.IH [OF rest len2, of "res \<or> eps_accept P (u ?n) \<or> eps_accept P (v ?n)"]
      True i nv a1 a2 l1 l2 nf
    show ?thesis by auto
  qed
qed

lemma feed_nodes_terminates:
  assumes "eps_ranked P r"
  shows "\<exists>res. feed_nodes P prev c is st = Some res"
proof (induction "is" arbitrary: st)
  case Nil
  then show ?case by simp
next
  case (Cons i "is")
  let ?n = "nfa P ! i"
  from add_terminates [OF assms] obtain r1 where
    r1: "cre_sim_add P (fst st) (u ?n) = Some r1" by blast
  show ?case
  proof (cases r1)
    case (Inl e)
    with r1 Cons.IH show ?thesis by (auto split: sum.splits)
  next
    case (Inr x)
    obtain in1 b1 where x: "x = (in1, b1)" by (cases x)
    from add_terminates [OF assms] obtain r2 where
      r2: "cre_sim_add P in1 (v ?n) = Some r2" by blast
    with r1 Inr x Cons.IH show ?thesis
      by (cases r2) (auto split: sum.splits)
  qed
qed

lemma feedc_terminates:
  assumes "eps_ranked (pat s) r"
  shows "\<exists>res. cre_sim_feedc s c = Some res"
proof (cases "clear_cells (lastin s) [0..<nat (nfa_len (pat s))]")
  case (Inl e)
  then show ?thesis by (simp add: cre_sim_feedc_def Let_def)
next
  case (Inr cleared)
  from feed_nodes_terminates [OF assms] obtain res where
    "feed_nodes (pat s) (in_st s) c [0..<nat (nfa_len (pat s))] (cleared, False) = Some res"
    by blast
  with Inr show ?thesis
    by (cases res) (auto simp: cre_sim_feedc_def Let_def)
qed

lemma sim_feeds_terminates:
  assumes "eps_ranked (pat s) r"
  shows "\<exists>res. sim_feeds s cs = Some res"
  using assms
proof (induction cs arbitrary: s)
  case Nil
  then show ?case by simp
next
  case (Cons c cs)
  from feedc_terminates [OF Cons.prems] obtain res where
    res: "cre_sim_feedc s c = Some res" by blast
  show ?case
  proof (cases res)
    case (Inl e)
    with res show ?thesis by simp
  next
    case (Inr x)
    obtain s1 b where x: "x = (s1, b)" by (cases x)
    from feedc_preserves res Inr x have "pat s1 = pat s" by blast
    with Cons.prems have "eps_ranked (pat s1) r" by simp
    from Cons.IH [OF this] res Inr x show ?thesis by simp
  qed
qed

subsection \<open>The value of a feed that returns\<close>

lemma add_result_aux:
  assumes "cre_sim_add P inb i = Some res"
  shows "case res of Inl e \<Rightarrow> True | Inr (inb', b) \<Rightarrow> b = eps_accept P i"
proof -
  let ?Q = "\<lambda>x res. case res of Inl e \<Rightarrow> True
              | Inr (inb', b) \<Rightarrow> b = eps_accept (fst (fst x)) (snd x)"
  have "?Q ((P, inb), i) res"
  proof (rule cre_sim_add.raw_induct [where Pa = ?Q, OF _ assms], goal_cases)
    case (1 add P inb i res)
    have IH: "b = eps_accept P0 i0" if "add P0 in0 i0 = Some (Inr (in1, b))"
      for P0 in0 i0 in1 b
      using "1"(1) [OF that] by simp
    show ?case
    proof (cases res)
      case (Inl e)
      then show ?thesis by simp
    next
      case (Inr x)
      obtain inb' b where x: "x = (inb', b)" by (cases x)
      have "b = eps_accept P i"
      proof (cases "i = -1 \<or> i = -2")
        case True
        with "1"(2) Inr x show ?thesis
          by (auto intro: eps_accept.accept_edge)
      next
        case False
        with "1"(2) Inr x have inside: "0 \<le> i" "i < nfa_len P"
          by (auto split: if_splits)
        show ?thesis
        proof (cases "kind (nfa P ! nat i)")
          case cre_SET
          with "1"(2) Inr x False inside show ?thesis
            by (auto simp: eps_accept_set split: if_splits)
        next
          case cre_EPS
          with "1"(2) Inr x False inside show ?thesis
            by (auto simp: eps_accept_eps split: if_splits sum.splits Option.bind_splits
                     dest!: IH)
        qed
      qed
      with Inr x show ?thesis by simp
    qed
  qed
  then show ?thesis by (cases res) auto
qed

lemma add_result:
  "cre_sim_add P inb i = Some (Inr (inb', b)) \<Longrightarrow> b = eps_accept P i"
  by (drule add_result_aux) simp

lemma node_valid_fires:
  assumes "node_valid n c = Inr b"
  shows "b \<longleftrightarrow> kind n = cre_SET \<and> set_tab n ! unat c"
proof (cases "kind n")
  case cre_EPS
  with assms show ?thesis by (simp add: node_valid_def)
next
  case cre_SET
  with assms have "0 \<le> sint c" and b: "b = set_tab n ! nat (sint c)"
    by (auto simp: node_valid_def split: if_splits)
  with char_index(1) [of c] cre_SET show ?thesis by simp
qed

lemma feed_nodes_result:
  "feed_nodes P prev c is (inb, res) = Some (Inr (inb', res')) \<Longrightarrow>
     res' \<longleftrightarrow> res \<or> (\<exists>i \<in> set is. node_fires P prev c i)"
proof (induction "is" arbitrary: inb res)
  case Nil
  then show ?case by simp
next
  case (Cons i "is")
  let ?n = "nfa P ! i"
  show ?case
  proof (cases "prev ! i")
    case False
    with Cons.prems have "feed_nodes P prev c is (inb, res) = Some (Inr (inb', res'))"
      by (auto split: if_splits)
    from Cons.IH [OF this] False show ?thesis by (simp add: node_fires_def)
  next
    case True
    with Cons.prems obtain valid where nv: "node_valid ?n c = Inr valid"
      by (auto split: if_splits sum.splits)
    note fires = node_valid_fires [OF nv]
    show ?thesis
    proof (cases valid)
      case False
      with Cons.prems True nv have "feed_nodes P prev c is (inb, res) = Some (Inr (inb', res'))"
        by (auto split: if_splits)
      from Cons.IH [OF this] False fires show ?thesis by (auto simp: node_fires_def)
    next
      case valid: True
      with Cons.prems True nv obtain in1 b1 in2 b2 where
        a1: "cre_sim_add P inb (u ?n) = Some (Inr (in1, b1))" and
        a2: "cre_sim_add P in1 (v ?n) = Some (Inr (in2, b2))" and
        rest: "feed_nodes P prev c is (in2, res \<or> b1 \<or> b2) = Some (Inr (inb', res'))"
        by (auto split: if_splits dest!: and_then_Inr)
      from Cons.IH [OF rest] add_result [OF a1] add_result [OF a2] valid fires True
      show ?thesis by (auto simp: node_fires_def)
    qed
  qed
qed

lemma feedc_result:
  assumes "nfa_len (pat s) = int (length (nfa (pat s)))"
    and "cre_sim_feedc s c = Some (Inr (s1, b))"
  shows "b \<longleftrightarrow> step_accepts s c"
  using assms
  by (auto simp: cre_sim_feedc_def Let_def step_accepts_def split: sum.splits prod.splits
           dest!: and_then_Inr feed_nodes_result)

subsection \<open>The example patterns, evaluated\<close>

lemma only_simps [simp]: "length (only b) = 256" "k < 256 \<Longrightarrow> only b ! k = (k = b)"
  by (cases "b < 256"; auto simp: only_def nth_list_update)+

lemma upt_small:
  "[0..<Suc 0] = [0]" "[0..<2] = [0, Suc 0]" "[0..<3] = [0, Suc 0, 2]" "[0..<4] = [0, Suc 0, 2, 3]"
  by (simp_all add: upt_rec)

lemma sim_at_fields [simp]:
  "pat (sim_at P act) = P" "in_st (sim_at P act) = act"
  "lastin (sim_at P act) = replicate (length act) False"
  by (simp_all add: sim_at_def)

lemma pat_a_nodes:
  "nfa_len pat_a = 1" "length (nfa pat_a) = 1" "nfa_start pat_a = 0"
  "nfa pat_a ! 0 = set_node 97 (-2) (-1)"
  by (simp_all add: pat_a_def)

lemma pat_a_opt_nodes:
  "nfa_len pat_a_opt = 2" "length (nfa pat_a_opt) = 2" "nfa_start pat_a_opt = 0"
  "nfa pat_a_opt ! 0 = eps_node 1 (-2)" "nfa pat_a_opt ! Suc 0 = set_node 97 (-2) (-1)"
  by (simp_all add: pat_a_opt_def)

lemma pat_ab_opt_nodes:
  "nfa_len pat_ab_opt = 3" "length (nfa pat_ab_opt) = 3" "nfa_start pat_ab_opt = 0"
  "nfa pat_ab_opt ! 0 = set_node 97 1 (-1)" "nfa pat_ab_opt ! Suc 0 = eps_node 2 (-2)"
  "nfa pat_ab_opt ! 2 = set_node 98 (-2) (-1)"
  by (simp_all add: pat_ab_opt_def)

lemma pat_self_nodes:
  "nfa_len pat_self = 2" "length (nfa pat_self) = 2" "nfa_start pat_self = 0"
  "nfa pat_self ! 0 = set_node 97 1 (-1)" "nfa pat_self ! Suc 0 = eps_node 1 (-2)"
  by (simp_all add: pat_self_def)

lemma feedc_a: "cre_sim_feedc (sim_at pat_a [True]) 97 =
   Some (Inr (\<lparr>pat = pat_a, in_st = [False], lastin = [True]\<rparr>, True))"
  by (simp add: cre_sim_feedc_def Let_def pat_a_nodes upt_small node_valid_def add_accept add_no_edge sim_at_def)

lemma init_a_opt: "cre_sim_init pat_a_opt = Inr (sim_at pat_a_opt [True, False])"
  by (simp add: cre_sim_init_def cre_sim_reset_def malloc_bools_def pat_a_opt_nodes sim_at_def upt_small numeral_2_eq_2)

lemma reset_ab_opt: "cre_sim_reset (sim_at pat_ab_opt [False, True, False]) = Inr (sim_at pat_ab_opt [True, False, False])"
  by (simp add: cre_sim_reset_def pat_ab_opt_nodes sim_at_def upt_small)

lemma feeds_ab_opt: "sim_feeds (sim_at pat_ab_opt [True, False, False]) [97, 98]
    = Some (Inr \<lparr>pat = pat_ab_opt, in_st = [False, False, False], lastin = [False, False, True]\<rparr>)"
  by (simp add: cre_sim_feedc_def Let_def pat_ab_opt_nodes upt_small node_valid_def add_accept add_no_edge
        add_set_node add_eps_node sim_at_def)

lemma pat_ok_ab_opt: "pat_ok pat_ab_opt"
  by (simp add: pat_ok_def pat_ab_opt_def node_ok_def edge_ok_def)

lemma ranked_ab_opt: "eps_ranked pat_ab_opt rank_ab_opt"
  by (simp add: eps_ranked_def pat_ab_opt_nodes eps_falls_def rank_ab_opt_def upt_small)

lemma pat_self_loops:
  assumes "cre_sim_add P inb i = Some res"
  shows "\<not> (P = pat_self \<and> i = 1)"
proof -
  let ?Q = "\<lambda>x (res :: cre_fault + bool list \<times> bool). \<not> (fst (fst x) = pat_self \<and> snd x = 1)"
  have "?Q ((P, inb), i) res"
  proof (rule cre_sim_add.raw_induct [where Pa = ?Q, OF _ assms], goal_cases)
    case (1 add P inb i res)
    show ?case
    proof
      assume "fst (fst ((P, inb), i)) = pat_self \<and> snd ((P, inb), i) = 1"
      then have P: "P = pat_self" and i: "i = 1" by simp_all
      from "1"(2) [unfolded P i] obtain r where "add pat_self inb 1 = Some r"
        by (auto simp: pat_self_nodes split: Option.bind_splits)
      from "1"(1) [OF this] show False by simp
    qed
  qed
  then show ?thesis by simp
qed

lemma add_self_None: "cre_sim_add pat_self inb 1 = None"
proof (cases "cre_sim_add pat_self inb 1")
  case None
  then show ?thesis .
next
  case (Some res)
  from pat_self_loops [OF this] show ?thesis by simp
qed

lemma feedc_self_None: "cre_sim_feedc (sim_at pat_self [True, False]) 97 = None"
  by (simp add: cre_sim_feedc_def Let_def pat_self_nodes upt_small node_valid_def add_self_None)

lemma step_accepts_self: "step_accepts (sim_at pat_self [True, False]) 97"
proof -
  have "eps_accept pat_self 1"
    by (rule eps_accept.accept_v [of 1]) (simp_all add: pat_self_nodes eps_accept.accept_edge)
  then have "node_fires pat_self [True, False] 97 0"
    by (simp add: node_fires_def pat_self_nodes)
  then show ?thesis
    by (auto simp: step_accepts_def pat_self_nodes upt_small)
qed

lemma closure_a_opt: "eps_closure pat_a_opt (nfa_start pat_a_opt) 1"
proof -
  have "eps_closure pat_a_opt 1 1"
    by (rule eps_closure.closure_set) (simp_all add: pat_a_opt_nodes)
  then have "eps_closure pat_a_opt 0 1"
    by (intro eps_closure.closure_u [of 0]) (simp_all add: pat_a_opt_nodes)
  then show ?thesis by (simp add: pat_a_opt_nodes)
qed

lemma closure_from_set:
  assumes "0 \<le> i" "i < nfa_len P" "kind (nfa P ! nat i) = cre_SET"
  shows "eps_closure P i j \<longleftrightarrow> j = i"
  using assms by (auto elim: eps_closure.cases intro: eps_closure.closure_set)

lemma reset_marks_start_aux:
  assumes "sim_ok s" "0 \<le> nfa_start (pat s)" "nfa_start (pat s) < nfa_len (pat s)"
  shows "cre_sim_reset s =
           Inr (s\<lparr>in_st := (replicate (nat (nfa_len (pat s))) False)[nat (nfa_start (pat s)) := True],
                  lastin := replicate (nat (nfa_len (pat s))) False\<rparr>)"
  using assms by (simp add: cre_sim_reset_def sim_ok_def reset_cells_all)

lemma pat_nested_nodes:
  "nfa_len pat_nested = 4" "length (nfa pat_nested) = 4" "nfa_start pat_nested = 0"
  "nfa pat_nested ! 0 = set_node 97 1 (-1)" "nfa pat_nested ! Suc 0 = eps_node 2 (-2)"
  "nfa pat_nested ! 2 = eps_node 3 1" "nfa pat_nested ! 3 = set_node 98 2 (-1)"
  by (simp_all add: pat_nested_def)

lemma pat_nested_loops:
  assumes "cre_sim_add P inb i = Some res"
  shows "P = pat_nested \<and> length inb = 4 \<longrightarrow>
           i \<noteq> 1 \<and> i \<noteq> 2 \<and> (i = 3 \<longrightarrow> (\<exists>inb' b. res = Inr (inb', b) \<and> length inb' = 4))"
proof -
  let ?Q = "\<lambda>x (res :: cre_fault + bool list \<times> bool).
              fst (fst x) = pat_nested \<and> length (snd (fst x)) = 4 \<longrightarrow>
              snd x \<noteq> 1 \<and> snd x \<noteq> 2 \<and>
              (snd x = 3 \<longrightarrow> (\<exists>inb' b. res = Inr (inb', b) \<and> length inb' = 4))"
  have "?Q ((P, inb), i) res"
  proof (rule cre_sim_add.raw_induct [where Pa = ?Q, OF _ assms], goal_cases)
    case (1 add P inb i res)
    have IH: "i0 \<noteq> 1 \<and> i0 \<noteq> 2 \<and> (i0 = 3 \<longrightarrow> (\<exists>inb' b. r = Inr (inb', b) \<and> length inb' = 4))"
      if "add pat_nested in0 i0 = Some r" "length in0 = 4" for in0 i0 r
      using "1"(1) [OF that(1)] that(2) by simp
    show ?case
    proof (intro impI, elim conjE)
      assume "fst (fst ((P, inb), i)) = pat_nested"
        and "length (snd (fst ((P, inb), i))) = 4"
      then have P: "P = pat_nested" and L: "length inb = 4" by simp_all
      note body = "1"(2) [unfolded P]
      have "i \<noteq> 1"
      proof
        assume "i = 1"
        with body obtain r where "add pat_nested inb 2 = Some r"
          by (auto simp: pat_nested_nodes split: Option.bind_splits)
        from IH [OF this L] show False by simp
      qed
      moreover have "i \<noteq> 2"
      proof
        assume "i = 2"
        with body obtain r1 where r1: "add pat_nested inb 3 = Some r1"
          and rest: "(case r1 of Inl e \<Rightarrow> Some (Inl e)
                      | Inr (in1, b1) \<Rightarrow>
                          Option.bind (add pat_nested in1 1) (\<lambda>r2.
                            case r2 of Inl e \<Rightarrow> Some (Inl e)
                            | Inr (in2, b2) \<Rightarrow> Some (Inr (in2, b1 \<or> b2)))) = Some res"
          by (auto simp: pat_nested_nodes split: Option.bind_splits)
        from IH [OF r1 L] obtain in1 b1 where s1: "r1 = Inr (in1, b1)" "length in1 = 4"
          by auto
        with rest obtain r2 where "add pat_nested in1 1 = Some r2"
          by (auto split: Option.bind_splits)
        from IH [OF this s1(2)] show False by simp
      qed
      moreover have "\<exists>inb' b. res = Inr (inb', b) \<and> length inb' = 4" if "i = 3"
        using body that L by (auto simp: pat_nested_nodes split: if_splits)
      ultimately show
        "snd ((P, inb), i) \<noteq> 1 \<and> snd ((P, inb), i) \<noteq> 2 \<and>
         (snd ((P, inb), i) = 3 \<longrightarrow> (\<exists>inb' b. res = Inr (inb', b) \<and> length inb' = 4))"
        by simp
    qed
  qed
  then show ?thesis by simp
qed

lemma add_nested_None:
  assumes "length inb = 4"
  shows "cre_sim_add pat_nested inb 1 = None"
proof (cases "cre_sim_add pat_nested inb 1")
  case None
  then show ?thesis .
next
  case (Some res)
  from pat_nested_loops [OF this] assms show ?thesis by simp
qed

lemma init_start_marked:
  assumes "0 \<le> nfa_start P" "nfa_start P < nfa_len P"
  shows "cre_sim_init P =
           Inr \<lparr>pat = P, in_st = (replicate (nat (nfa_len P)) False)[nat (nfa_start P) := True],
                lastin = replicate (nat (nfa_len P)) False\<rparr>"
  using assms
  by (simp add: cre_sim_init_def cre_sim_reset_def malloc_bools_def reset_cells_all)

lemma replicate_small:
  "replicate (Suc 0) x = [x]" "replicate 2 x = [x, x]" "replicate 3 x = [x, x, x]"
  "replicate 4 x = [x, x, x, x]"
  by (simp_all add: numeral_eq_Suc)

subsection \<open>Epsilon nodes stay unmarked across a feed\<close>

lemma add_quiet_aux:
  assumes "cre_sim_add P inb i = Some res"
  shows "case res of Inl e \<Rightarrow> True | Inr (inb', b) \<Rightarrow> quiet P inb \<longrightarrow> quiet P inb'"
proof -
  let ?Q = "\<lambda>x res. case res of Inl e \<Rightarrow> True
              | Inr (inb', b) \<Rightarrow> quiet (fst (fst x)) (snd (fst x)) \<longrightarrow> quiet (fst (fst x)) inb'"
  have "?Q ((P, inb), i) res"
  proof (rule cre_sim_add.raw_induct [where Pa = ?Q, OF _ assms], goal_cases)
    case (1 add P inb i res)
    have IH: "quiet P0 in1" if "add P0 in0 i0 = Some (Inr (in1, b))" "quiet P0 in0"
      for P0 in0 i0 in1 b
      using "1"(1) [OF that(1)] that(2) by simp
    have upd: "quiet P (inb[nat i := True])"
      if "quiet P inb" "kind (nfa P ! nat i) \<noteq> cre_EPS" "nat i < length inb"
      using that kind_cases [of "nfa P ! nat i"]
      by (auto simp: quiet_def nth_list_update)
    from "1"(2) show ?case
      by (auto split: if_splits sum.splits Option.bind_splits prod.splits
               intro: upd dest: IH)
  qed
  then show ?thesis by (cases res) auto
qed

lemma add_quiet:
  "cre_sim_add P inb i = Some (Inr (inb', b)) \<Longrightarrow> quiet P inb \<Longrightarrow> quiet P inb'"
  by (drule add_quiet_aux) simp

lemma feed_nodes_quiet:
  "feed_nodes P prev c is (inb, res) = Some (Inr (inb', res')) \<Longrightarrow> quiet P inb \<Longrightarrow> quiet P inb'"
proof (induction "is" arbitrary: inb res)
  case Nil
  then show ?case by simp
next
  case (Cons i "is")
  show ?case
  proof (cases "i < length prev \<and> prev ! i \<and> i < length (nfa P) \<and>
                node_valid (nfa P ! i) c = Inr True")
    case False
    with Cons.prems have "feed_nodes P prev c is (inb, res) = Some (Inr (inb', res'))"
      by (auto split: if_splits sum.splits)
    from Cons.IH [OF this Cons.prems(2)] show ?thesis .
  next
    case True
    with Cons.prems obtain in1 b1 in2 b2 where
      a1: "cre_sim_add P inb (u (nfa P ! i)) = Some (Inr (in1, b1))" and
      a2: "cre_sim_add P in1 (v (nfa P ! i)) = Some (Inr (in2, b2))" and
      rest: "feed_nodes P prev c is (in2, res \<or> b1 \<or> b2) = Some (Inr (inb', res'))"
      by (auto dest!: and_then_Inr)
    from add_quiet [OF a2 add_quiet [OF a1 Cons.prems(2)]] have "quiet P in2" .
    from Cons.IH [OF rest this] show ?thesis .
  qed
qed

lemma clear_cells_result:
  assumes "\<forall>i \<in> set is. i < length xs"
  shows "clear_cells xs is = Inr (map (\<lambda>j. xs ! j \<and> j \<notin> set is) [0..<length xs])"
  using assms
proof (induction "is" arbitrary: xs)
  case Nil
  then show ?case by (simp add: map_nth)
next
  case (Cons i "is")
  then show ?case
    by (auto simp: nth_list_update intro!: nth_equalityI)
qed

lemma feedc_quiet:
  assumes "sim_ok s" "cre_sim_feedc s c = Some (Inr (s1, b))"
  shows "quiet (pat s) (in_st s1)"
proof -
  let ?n = "nat (nfa_len (pat s))"
  from assms(1) have "clear_cells (lastin s) [0..<?n] =
      Inr (map (\<lambda>j. lastin s ! j \<and> j \<notin> set [0..<?n]) [0..<length (lastin s)])"
    by (intro clear_cells_result) (simp add: sim_ok_def)
  moreover from assms(1)
  have "quiet (pat s) (map (\<lambda>j. lastin s ! j \<and> j \<notin> set [0..<?n]) [0..<length (lastin s)])"
    by (simp add: quiet_def sim_ok_def)
  ultimately show ?thesis
    using assms(2)
    by (auto simp: cre_sim_feedc_def Let_def split: prod.splits
             dest!: and_then_Inr feed_nodes_quiet)
qed


subsection \<open>The iterator reset on the heap\<close>

lemma store_iter_Inr:
  assumes "h iter = Some (Iter_struct ic)"
  shows "store_iter h iter f = Inr (h(iter \<mapsto> Iter_struct (f ic)))"
  using assms by (simp add: store_iter_def)

lemma reset_heap_result:
  assumes "h iter = Some (Iter_struct ic)"
  shows "cre_iter_reset_heap h iter =
           Inr (h(iter \<mapsto> Iter_struct (ic\<lparr>m_paths_len := 0, m_buf_len := 0\<rparr>)))"
  using assms by (simp add: cre_iter_reset_heap_def store_iter_def)

lemma reset_heap_Inr:
  assumes "cre_iter_reset_heap h iter = Inr h'"
  shows "\<exists>ic. h iter = Some (Iter_struct ic)"
  using assms
  by (auto simp: cre_iter_reset_heap_def store_iter_def split: option.splits block.splits sum.splits)

lemma struct_update_reads:
  assumes "h iter = Some (Iter_struct ic)"
  shows "bools_at (h(iter \<mapsto> Iter_struct ic')) p = bools_at h p"
    and "ints_at (h(iter \<mapsto> Iter_struct ic')) p = ints_at h p"
    and "bytes_at (h(iter \<mapsto> Iter_struct ic')) p = bytes_at h p"
    and "path_array_at (h(iter \<mapsto> Iter_struct ic')) p = path_array_at h p"
  using assms by (simp_all add: bools_at_def ints_at_def bytes_at_def path_array_at_def)

lemma struct_update_path:
  assumes "h iter = Some (Iter_struct ic)"
  shows "path_of (h(iter \<mapsto> Iter_struct ic')) pm = path_of h pm"
  by (simp add: path_of_def struct_update_reads [where h = h and iter = iter and ic = ic, OF assms])

lemma struct_update_paths:
  assumes "h iter = Some (Iter_struct ic)"
  shows "paths_of (h(iter \<mapsto> Iter_struct ic')) pms = paths_of h pms"
proof (induction pms)
  case Nil
  show ?case by simp
next
  case (Cons pm pms)
  show ?case
    by (simp only: paths_of.simps Cons.IH
          struct_update_path [where h = h and iter = iter and ic = ic, OF assms])
qed

lemma reset_heap_refines:
  assumes "cre_iter_reset_heap h iter = Inr h'" "iter_of h iter = Some it"
  shows "iter_of h' iter = Some (cre_iter_reset it)"
proof -
  from reset_heap_Inr [OF assms(1)] obtain ic where ic: "h iter = Some (Iter_struct ic)" by blast
  from reset_heap_result [where h = h and iter = iter and ic = ic, OF ic] assms(1)
  have h': "h' = h(iter \<mapsto> Iter_struct (ic\<lparr>m_paths_len := 0, m_buf_len := 0\<rparr>))" by simp
  from assms(2) ic show ?thesis
    unfolding h'
    by (auto simp: iter_of_def cre_iter_reset_def struct_update_reads [where h = h and iter = iter and ic = ic, OF ic]
                   struct_update_paths [where h = h and iter = iter and ic = ic, OF ic] split: option.splits)
qed

lemma free_is_visible: "h p = Some b \<Longrightarrow> dom (heap_free h p) \<noteq> dom h"
  by (auto simp: heap_free_def)

lemma heap_a_reads:
  "heap_a 1 = Some (Iter_struct iter_mem)"
  "iter_of heap_a 1 =
     Some \<lparr>it_pat = pat_a, paths_len = 1, paths_cap = 1,
           paths = [\<lparr>sim = \<lparr>pat = pat_a, in_st = [True], lastin = [False]\<rparr>,
                     Ms = 0, Me = -1, Gs = [0], Ge = [0]\<rparr>],
           buf_len = 1, buf_cap = 4, buf = [97, 0, 0, 0]\<rparr>"
  by (simp_all add: heap_a_def iter_of_def iter_mem_def slot_mem_def path_array_at_def
        bytes_at_def path_of_def bools_at_def ints_at_def)

section \<open>The claims\<close>

subsection \<open>C1: a path for every offset\<close>

lemma init_lengths: "paths_len (cre_iter_init it0 P) = 0" "buf_len (cre_iter_init it0 P) = 0"
  by (simp_all add: cre_iter_init_def cre_iter_reset_def)

text \<open>
  C1 asks that after every feed exactly one path be anchored at the position just fed,
  a fresh one being spawned where none is, also at offset 0 of a fresh iterator. The
  code spawns paths only inside the loop over the paths in use. On the iterator that
  \<^verbatim>\<open>cre_iter_init\<close> returns that loop has no round to run: a feed, and any sequence of
  feeds and resets, returns the iterator as it was, with no path.
\<close>

theorem fresh_iterator_never_spawns:
  "cre_iter_feedc (cre_iter_init it0 P) c = Some (Inr (cre_iter_init it0 P)) \<and>
   iter_run (cre_iter_init it0 P) ops = Some (Inr (cre_iter_init it0 P)) \<and>
   paths_len (cre_iter_init it0 P) = 0"
  by (simp add: feedc_no_paths iter_run_idle init_lengths)

subsection \<open>C2: a dead path with a match\<close>

text \<open>
  C2 asks that a path whose simulator has no active node left be discarded, and its
  match emitted if \<^verbatim>\<open>Me\<close> was set. In the code the branch for a dead path with a match
  is empty. \<open>iter_a\<close> has one path over the pattern \<^verbatim>\<open>a\<close>; feeding \<^verbatim>\<open>a\<close> (97) appends a
  second path from the pool and feeds both. Each matches, so \<^verbatim>\<open>Me\<close> is set, and each is
  left with an empty active set; both stay in use with \<^verbatim>\<open>Ms = 0\<close>, and the iterator
  holds nothing else that could carry a match.
\<close>

theorem dead_match_path_is_kept:
  "cre_iter_feedc iter_a 97 =
     Some (Inr (iter_a\<lparr>paths_len := 2,
                       paths := [dead_slot_a, dead_slot_a, slot_a 0 0, slot_a 0 0]\<rparr>)) \<and>
   in_st (sim dead_slot_a) = [False] \<and> Ms dead_slot_a = 0 \<and> Me dead_slot_a = 0"
  by (simp add: cre_iter_feedc_def cre_iter_round_def cre_iter_spawn_def cre_iter_advance_def
        iter_a_def slot_a_def dead_slot_a_def feedc_a Let_def pat_a_nodes upt_small)

subsection \<open>C3: what a feed returns\<close>

text \<open>
  C3, as amended. For a well-formed pattern whose epsilon nodes form no cycle, a
  simulator with buffers of the pattern's size and a byte whose \<^verbatim>\<open>char\<close> value is not
  negative, \<^verbatim>\<open>cre_sim_feedc\<close> returns, and it returns true exactly when some node
  active before the call has the byte in its set and reaches Accept from one of its
  two edges through epsilon-closure. (Whenever a feed returns a value at all, the
  value is that one: \<open>feedc_result\<close>.)
\<close>

theorem feedc_returns_step_accepts:
  assumes "pat_ok (pat s)" "eps_ranked (pat s) r" "sim_ok s" "0 \<le> sint c"
  shows "\<exists>s1. cre_sim_feedc s c = Some (Inr (s1, step_accepts s c))"
proof -
  let ?P = "pat s"
  let ?n = "length (nfa ?P)"
  from assms(1) have n: "nat (nfa_len ?P) = ?n" by (simp add: pat_ok_def)
  with assms(3) have len: "length (in_st s) = ?n" "length (lastin s) = ?n"
    by (simp_all add: sim_ok_def)
  from clear_cells_ok [of "[0..<?n]" "lastin s"] len obtain cleared where
    cl: "clear_cells (lastin s) [0..<?n] = Inr cleared" "length cleared = ?n" by auto
  from feed_nodes_value [OF assms(1,2,4), of "[0..<?n]" "in_st s" cleared False] len cl(2)
  obtain inb where
    "feed_nodes ?P (in_st s) c [0..<?n] (cleared, False) =
       Some (Inr (inb, \<exists>i \<in> set [0..<?n]. node_fires ?P (in_st s) c i))"
    by auto
  with cl(1) n show ?thesis
    by (simp add: cre_sim_feedc_def Let_def step_accepts_def)
qed

text \<open>
  The theorem at the pattern \<^verbatim>\<open>ab?\<close>, started and fed \<^verbatim>\<open>a\<close>: the feed returns true, as
  Accept is reached through the epsilon split.
\<close>

theorem feedc_returns_step_accepts_witness:
  "pat_ok (pat (sim_at pat_ab_opt [True, False, False])) \<and>
   eps_ranked (pat (sim_at pat_ab_opt [True, False, False])) rank_ab_opt \<and>
   sim_ok (sim_at pat_ab_opt [True, False, False]) \<and>
   0 \<le> sint (97 :: 8 word) \<and>
   (\<exists>s1. cre_sim_feedc (sim_at pat_ab_opt [True, False, False]) 97 =
           Some (Inr (s1, step_accepts (sim_at pat_ab_opt [True, False, False]) 97)))"
proof -
  have h1: "pat_ok (pat (sim_at pat_ab_opt [True, False, False]))"
    by (simp add: pat_ok_ab_opt)
  have h2: "eps_ranked (pat (sim_at pat_ab_opt [True, False, False])) rank_ab_opt"
    by (simp add: ranked_ab_opt)
  have h3: "sim_ok (sim_at pat_ab_opt [True, False, False])"
    by (simp add: sim_ok_def pat_ab_opt_nodes)
  have h4: "0 \<le> sint (97 :: 8 word)" by simp
  from feedc_returns_step_accepts [OF h1 h2 h3 h4] h1 h2 h3 h4 show ?thesis by blast
qed

text \<open>
  C3 as stated fails where the closure does not return. In \<open>pat_self\<close> the node after
  \<^verbatim>\<open>a\<close> is an epsilon node whose first edge is itself and whose second edge accepts:
  from the start state Accept is reachable on \<^verbatim>\<open>a\<close>, and the feed returns nothing.
\<close>

theorem feedc_accept_reachable_no_return:
  "cre_sim_init pat_self = Inr (sim_at pat_self [True, False]) \<and>
   step_accepts (sim_at pat_self [True, False]) 97 \<and>
   cre_sim_feedc (sim_at pat_self [True, False]) 97 = None"
  by (simp add: init_start_marked pat_self_nodes replicate_small sim_at_def [symmetric]
        feedc_self_None step_accepts_self)

subsection \<open>C4: what reset leaves active\<close>

text \<open>
  Where the start node is a set node, marking the start index is the closure: the
  active set after \<^verbatim>\<open>cre_sim_reset\<close> is exactly the set nodes reachable from the
  start index without consuming a byte, and Accept is not reachable that way.
\<close>

lemma reset_set_start:
  assumes "sim_ok s" "0 \<le> nfa_start (pat s)" "nfa_start (pat s) < nfa_len (pat s)"
    and "kind (nfa (pat s) ! nat (nfa_start (pat s))) = cre_SET"
  shows "\<exists>s1. cre_sim_reset s = Inr s1 \<and> pat s1 = pat s \<and>
           lastin s1 = replicate (nat (nfa_len (pat s))) False \<and>
           length (in_st s1) = nat (nfa_len (pat s)) \<and>
           (\<forall>j < nat (nfa_len (pat s)).
              in_st s1 ! j \<longleftrightarrow> eps_closure (pat s) (nfa_start (pat s)) (int j)) \<and>
           \<not> eps_accept (pat s) (nfa_start (pat s))"
proof -
  let ?n = "nat (nfa_len (pat s))"
  let ?k = "nat (nfa_start (pat s))"
  let ?s1 = "s\<lparr>in_st := (replicate ?n False)[?k := True], lastin := replicate ?n False\<rparr>"
  from reset_marks_start_aux [OF assms(1-3)] have r: "cre_sim_reset s = Inr ?s1" .
  have "in_st ?s1 ! j \<longleftrightarrow> eps_closure (pat s) (nfa_start (pat s)) (int j)" if "j < ?n" for j
    using that assms(2,3) closure_from_set [OF assms(2-4), of "int j"]
    by (auto simp: nth_list_update)
  moreover from assms(2,4) have "\<not> eps_accept (pat s) (nfa_start (pat s))"
    by (rule eps_accept_set)
  ultimately show ?thesis using r by simp
qed

lemma no_closure_a_opt_0: "\<not> eps_closure pat_a_opt (nfa_start pat_a_opt) 0"
proof
  assume "eps_closure pat_a_opt (nfa_start pat_a_opt) 0"
  then have "eps_closure pat_a_opt 0 0" by (simp add: pat_a_opt_nodes)
  then have "eps_closure pat_a_opt 1 0 \<or> eps_closure pat_a_opt (-2) 0"
    by (cases rule: eps_closure.cases) (simp_all add: pat_a_opt_nodes)
  then show False
    by (auto elim: eps_closure.cases simp: pat_a_opt_nodes)
qed

lemma accept_a_opt: "eps_accept pat_a_opt (nfa_start pat_a_opt)"
proof -
  have "eps_accept pat_a_opt 0"
    by (rule eps_accept.accept_v [of 0]) (simp_all add: pat_a_opt_nodes eps_accept.accept_edge)
  then show ?thesis by (simp add: pat_a_opt_nodes)
qed

text \<open>
  C4 asks that reset perform the epsilon-closure from the start index, so that
  exactly the set nodes reachable without consuming a byte are active, and that it
  report whether Accept is reachable. \<^verbatim>\<open>cre_sim_reset\<close> marks the start index itself
  and returns nothing. At the pattern \<^verbatim>\<open>a?\<close>, whose start node is an epsilon split,
  the set node 1 is in the closure and is not active, the epsilon node 0 is not in
  the closure and is active, and Accept is reachable (the empty match) with nothing
  reported. This is the defect of C5 seen from the closure.
\<close>

theorem reset_skips_closure:
  "cre_sim_reset (sim_at pat_a_opt [False, False]) = Inr (sim_at pat_a_opt [True, False]) \<and>
   eps_closure pat_a_opt (nfa_start pat_a_opt) 1 \<and>
   \<not> in_st (sim_at pat_a_opt [True, False]) ! 1 \<and>
   \<not> eps_closure pat_a_opt (nfa_start pat_a_opt) 0 \<and>
   in_st (sim_at pat_a_opt [True, False]) ! 0 \<and>
   eps_accept pat_a_opt (nfa_start pat_a_opt)"
proof -
  have "sim_ok (sim_at pat_a_opt [False, False])" by (simp add: sim_ok_def pat_a_opt_nodes)
  from reset_ignores_contents [OF this] init_a_opt closure_a_opt no_closure_a_opt_0 accept_a_opt
  show ?thesis by simp
qed

subsection \<open>C5: no epsilon node is active\<close>

text \<open>
  C5 asks that no epsilon node be active after a reset or a feed, and the comment in
  \<^verbatim>\<open>cre_sim_add_\<close> says as much. After a feed that returns it holds (\<open>feedc_quiet\<close>).
  After a reset it fails when the start node is an epsilon node: for the pattern
  \<^verbatim>\<open>a?\<close> the fresh simulator has the epsilon node 0 active, and a feed of \<^verbatim>\<open>a\<close> then
  leaves no node active and reports no match.
\<close>

theorem reset_activates_epsilon_start:
  "cre_sim_init pat_a_opt = Inr (sim_at pat_a_opt [True, False]) \<and>
   in_st (sim_at pat_a_opt [True, False]) ! 0 \<and>
   kind (nfa pat_a_opt ! 0) = cre_EPS \<and>
   cre_sim_feedc (sim_at pat_a_opt [True, False]) 97 =
     Some (Inr (\<lparr>pat = pat_a_opt, in_st = [False, False], lastin = [True, False]\<rparr>, False))"
proof -
  have "cre_sim_feedc (sim_at pat_a_opt [True, False]) 97 =
     Some (Inr (\<lparr>pat = pat_a_opt, in_st = [False, False], lastin = [True, False]\<rparr>, False))"
    by (simp add: cre_sim_feedc_def Let_def pat_a_opt_nodes upt_small node_valid_def sim_at_def)
  then show ?thesis by (simp add: init_a_opt pat_a_opt_nodes)
qed

subsection \<open>C6: termination of the closure\<close>

text \<open>
  C6, as amended. \<^verbatim>\<open>cre_sim_add_\<close> keeps no visited marker. For every pattern whose
  epsilon nodes form no cycle (some rank falls along every edge leaving an epsilon
  node), every feed terminates, with a result or at a failed check, and so does every
  sequence of feeds. The reset makes no closure call; its two loops are bounded by
  the node count, and its model is a total function.
\<close>

theorem feed_terminates_when_ranked:
  assumes "eps_ranked (pat s) r"
  shows "(\<exists>res. cre_sim_feedc s c = Some res) \<and> (\<exists>res. sim_feeds s cs = Some res)"
  using feedc_terminates [OF assms] sim_feeds_terminates [OF assms] by blast

theorem feed_terminates_when_ranked_witness:
  "eps_ranked (pat (sim_at pat_ab_opt [True, False, False])) rank_ab_opt \<and>
   (\<exists>res. cre_sim_feedc (sim_at pat_ab_opt [True, False, False]) 97 = Some res) \<and>
   (\<exists>res. sim_feeds (sim_at pat_ab_opt [True, False, False]) [97, 98] = Some res)"
proof -
  have h: "eps_ranked (pat (sim_at pat_ab_opt [True, False, False])) rank_ab_opt"
    by (simp add: ranked_ab_opt)
  from feed_terminates_when_ranked [OF h, of 97 "[97, 98]"] h show ?thesis by blast
qed

text \<open>
  C6 as stated fails at \<^verbatim>\<open>a(b*)*\<close>: the two splits of the nested stars lie on an
  epsilon cycle, and the first feed of \<^verbatim>\<open>a\<close> to the fresh simulator never returns.
\<close>

theorem feedc_nested_diverges:
  "cre_sim_init pat_nested = Inr (sim_at pat_nested [True, False, False, False]) \<and>
   cre_sim_feedc (sim_at pat_nested [True, False, False, False]) 97 = None"
  by (simp add: init_start_marked pat_nested_nodes replicate_small sim_at_def
        cre_sim_feedc_def Let_def upt_small node_valid_def add_nested_None)

subsection \<open>C7: compilation errors\<close>

text \<open>
  C7 asks that compilation return a pattern or report a parse error, and that
  \<^verbatim>\<open>"(a"\<close> be an error; the header comment of \<^verbatim>\<open>cre_pat_init\<close> promises an error string
  on failure. Whatever \<^verbatim>\<open>cre_parse_\<close> does, \<^verbatim>\<open>cre_pat_init\<close> ends in \<^verbatim>\<open>return NULL\<close>: no
  source text is reported as an error, \<^verbatim>\<open>"(a"\<close> included, and the caller's pattern has
  been written to.
\<close>

theorem pat_init_never_reports:
  "snd (cre_pat_init cre_parse p ''(a'') = None \<and> snd (cre_pat_init cre_parse p s) = None \<and>
   nfa_start (fst (cre_pat_init cre_parse p s)) = snd (cre_parse (p\<lparr>src := s, nfa_len := 0, nfa := []\<rparr>) s)"
  by (simp add: cre_pat_init_def Let_def split: prod.splits)

subsection \<open>C8: every byte can be fed\<close>

text \<open>
  C8 asks that a feed never fail and that the set lookup stay within the 256 entries
  for every byte. The lookup is \<^verbatim>\<open>n->set[c]\<close> with \<^verbatim>\<open>c\<close> a plain \<^verbatim>\<open>char\<close>: where \<^verbatim>\<open>char\<close>
  is signed the byte 200 is the index -56. On the fresh simulator of the pattern \<^verbatim>\<open>a\<close>
  the feed of byte 200 reads outside the set.
\<close>

theorem feedc_high_byte_out_of_bounds:
  "cre_sim_init pat_a = Inr (sim_at pat_a [True]) \<and>
   sint (200 :: 8 word) = -56 \<and>
   cre_sim_feedc (sim_at pat_a [True]) 200 = Some (Inl OutOfBounds)"
  by (simp add: init_start_marked pat_a_nodes replicate_small sim_at_def
        cre_sim_feedc_def Let_def upt_small node_valid_def)

subsection \<open>C9: reset, feeds, reset\<close>

text \<open>
  C9. For the simulator: after a reset, any feeds that return, and a second reset, the
  state equals that of a freshly initialised simulator of the same pattern. For the
  iterator: after a reset the feeds return, and after the second reset every
  sequence of resets and feeds returns and shows the caller what it shows on a
  freshly initialised iterator of the same pattern. (Neither iterator function
  returns a value in the source, so what the caller sees is the iterator.)
\<close>

theorem reset_feeds_reset_is_fresh:
  assumes "sim_ok s" "cre_sim_reset s = Inr s1" "sim_feeds s1 cs = Some (Inr s2)"
  shows "cre_sim_reset s2 = cre_sim_init (pat s) \<and>
         (\<exists>it2. iter_run (cre_iter_reset it) (map Feed cs) = Some (Inr it2) \<and>
            (\<forall>ops. \<exists>a b. iter_run (cre_iter_reset it2) ops = Some (Inr a) \<and>
                         iter_run (cre_iter_init it0 (it_pat it)) ops = Some (Inr b) \<and>
                         iter_view a = iter_view b))"
proof -
  from reset_sim_ok [OF assms(1,2)] have "sim_ok s1" "pat s1 = pat s" by simp_all
  with sim_feeds_ok [OF _ assms(3)] have "sim_ok s2" "pat s2 = pat s" by simp_all
  with reset_ignores_contents [of s2] have sim_part: "cre_sim_reset s2 = cre_sim_init (pat s)"
    by simp
  let ?r = "cre_iter_reset it"
  have idle: "paths_len ?r = 0" "buf_len ?r = 0" "it_pat ?r = it_pat it"
    by (simp_all add: cre_iter_reset_def)
  have run1: "iter_run ?r (map Feed cs) = Some (Inr ?r)"
    by (rule iter_run_idle [OF idle(1,2)])
  have again: "cre_iter_reset ?r = ?r" by (rule reset_idle [OF idle(1,2)])
  have "\<exists>a b. iter_run (cre_iter_reset ?r) ops = Some (Inr a) \<and>
               iter_run (cre_iter_init it0 (it_pat it)) ops = Some (Inr b) \<and>
               iter_view a = iter_view b" for ops
  proof -
    have "iter_run (cre_iter_reset ?r) ops = Some (Inr ?r)"
      unfolding again by (rule iter_run_idle [OF idle(1,2)])
    moreover have "iter_run (cre_iter_init it0 (it_pat it)) ops =
                     Some (Inr (cre_iter_init it0 (it_pat it)))"
      by (rule iter_run_idle [OF init_lengths])
    moreover have "iter_view ?r = iter_view (cre_iter_init it0 (it_pat it))"
      by (simp add: iter_view_def cre_iter_reset_def cre_iter_init_def)
    ultimately show ?thesis by blast
  qed
  with run1 sim_part show ?thesis by blast
qed

text \<open>
  The theorem at the pattern \<^verbatim>\<open>ab?\<close>: a used simulator is reset, fed \<^verbatim>\<open>ab\<close> and reset
  again; the iterator is \<open>iter_a\<close>.
\<close>

theorem reset_feeds_reset_is_fresh_witness:
  "sim_ok (sim_at pat_ab_opt [False, True, False]) \<and>
   cre_sim_reset (sim_at pat_ab_opt [False, True, False]) =
     Inr (sim_at pat_ab_opt [True, False, False]) \<and>
   sim_feeds (sim_at pat_ab_opt [True, False, False]) [97, 98] =
     Some (Inr \<lparr>pat = pat_ab_opt, in_st = [False, False, False], lastin = [False, False, True]\<rparr>) \<and>
   cre_sim_reset \<lparr>pat = pat_ab_opt, in_st = [False, False, False], lastin = [False, False, True]\<rparr> =
     cre_sim_init (pat (sim_at pat_ab_opt [False, True, False])) \<and>
   (\<exists>it2. iter_run (cre_iter_reset iter_a) (map Feed [97, 98]) = Some (Inr it2) \<and>
      (\<forall>ops. \<exists>a b. iter_run (cre_iter_reset it2) ops = Some (Inr a) \<and>
                   iter_run (cre_iter_init iter_a (it_pat iter_a)) ops = Some (Inr b) \<and>
                   iter_view a = iter_view b))"
proof -
  have h1: "sim_ok (sim_at pat_ab_opt [False, True, False])"
    by (simp add: sim_ok_def pat_ab_opt_nodes)
  note h2 = reset_ab_opt
  note h3 = feeds_ab_opt
  note c = reset_feeds_reset_is_fresh [OF h1 h2 h3, of iter_a iter_a]
  show ?thesis
    by (intro conjI h1 h2 h3 c [THEN conjunct1] c [THEN conjunct2])
qed

subsection \<open>C10: the frame of the iterator reset\<close>

text \<open>On the values of the model, the reset changes the two lengths only.\<close>

lemma iter_reset_fields:
  "paths_len (cre_iter_reset it) = 0 \<and> buf_len (cre_iter_reset it) = 0 \<and>
   paths (cre_iter_reset it) = paths it \<and> paths_cap (cre_iter_reset it) = paths_cap it \<and>
   buf (cre_iter_reset it) = buf it \<and> buf_cap (cre_iter_reset it) = buf_cap it \<and>
   it_pat (cre_iter_reset it) = it_pat it"
  by (simp add: cre_iter_reset_def)

text \<open>
  C10. On a heap that holds an iterator struct at the address passed, the reset
  returns, and afterwards: the struct's two lengths are 0; its path array pointer
  and \<^verbatim>\<open>paths_cap\<close>, its byte buffer pointer and \<^verbatim>\<open>buf_cap\<close>, and its pattern are as
  before; the set of allocated addresses is the same, so nothing was freed or
  allocated; every block other than the struct is unchanged, in particular the path
  array, the byte buffer, and for every path slot its simulator's two state buffers
  and its \<^verbatim>\<open>Gs\<close> and \<^verbatim>\<open>Ge\<close> arrays; and the iterator read back from the heap is the
  \<open>cre_iter_reset\<close> of the one read before.
\<close>

theorem iter_reset_heap_frame:
  assumes "h iter = Some (Iter_struct ic)"
  shows "\<exists>h' ic'. cre_iter_reset_heap h iter = Inr h' \<and> h' iter = Some (Iter_struct ic') \<and>
           m_paths_len ic' = 0 \<and> m_buf_len ic' = 0 \<and>
           m_paths ic' = m_paths ic \<and> m_paths_cap ic' = m_paths_cap ic \<and>
           m_buf ic' = m_buf ic \<and> m_buf_cap ic' = m_buf_cap ic \<and> m_it_pat ic' = m_it_pat ic \<and>
           dom h' = dom h \<and>
           (\<forall>p. p \<noteq> iter \<longrightarrow> h' p = h p) \<and>
           (\<forall>pm. path_of h' pm = path_of h pm) \<and>
           path_array_at h' (m_paths ic) = path_array_at h (m_paths ic) \<and>
           bytes_at h' (m_buf ic) = bytes_at h (m_buf ic) \<and>
           (\<forall>it. iter_of h iter = Some it \<longrightarrow> iter_of h' iter = Some (cre_iter_reset it))"
proof -
  let ?ic = "ic\<lparr>m_paths_len := 0, m_buf_len := 0\<rparr>"
  let ?h = "h(iter \<mapsto> Iter_struct ?ic)"
  have r: "cre_iter_reset_heap h iter = Inr ?h" by (rule reset_heap_result [where h = h and iter = iter and ic = ic, OF assms])
  have "dom ?h = dom h" using assms by auto
  moreover have "\<forall>it. iter_of h iter = Some it \<longrightarrow> iter_of ?h iter = Some (cre_iter_reset it)"
    using reset_heap_refines [OF r] by blast
  ultimately show ?thesis
    using r by (simp add: struct_update_reads [where h = h and iter = iter and ic = ic, OF assms] struct_update_path [where h = h and iter = iter and ic = ic, OF assms])
qed

text \<open>The theorem at \<open>heap_a\<close>, where the iterator at address 1 reads back in full.\<close>

theorem iter_reset_heap_frame_witness:
  "heap_a 1 = Some (Iter_struct iter_mem) \<and>
   (\<exists>it. iter_of heap_a 1 = Some it) \<and>
   (\<exists>h' ic'. cre_iter_reset_heap heap_a 1 = Inr h' \<and> h' 1 = Some (Iter_struct ic') \<and>
           m_paths_len ic' = 0 \<and> m_buf_len ic' = 0 \<and>
           m_paths ic' = m_paths iter_mem \<and> m_paths_cap ic' = m_paths_cap iter_mem \<and>
           m_buf ic' = m_buf iter_mem \<and> m_buf_cap ic' = m_buf_cap iter_mem \<and>
           m_it_pat ic' = m_it_pat iter_mem \<and>
           dom h' = dom heap_a \<and>
           (\<forall>p. p \<noteq> 1 \<longrightarrow> h' p = heap_a p) \<and>
           (\<forall>pm. path_of h' pm = path_of heap_a pm) \<and>
           path_array_at h' (m_paths iter_mem) = path_array_at heap_a (m_paths iter_mem) \<and>
           bytes_at h' (m_buf iter_mem) = bytes_at heap_a (m_buf iter_mem) \<and>
           (\<forall>it. iter_of heap_a 1 = Some it \<longrightarrow> iter_of h' 1 = Some (cre_iter_reset it)))"
proof -
  note h = heap_a_reads(1)
  have "\<exists>it. iter_of heap_a 1 = Some it" by (rule exI, rule heap_a_reads(2))
  with iter_reset_heap_frame [where h = heap_a and iter = 1 and ic = iter_mem, OF h] h
  show ?thesis by blast
qed

end
